theory Spec2Isabelle
  imports Main "HOL-Library.AList"
begin

section \<open>The object store\<close>

text \<open>
  port.go works on Go objects through pointers: \<^verbatim>\<open>*http.Request\<close>, the map behind an
  \<^verbatim>\<open>http.Header\<close>, the backing arrays of the \<^verbatim>\<open>[]string\<close> values of a header and
  \<^verbatim>\<open>*url.URL\<close>. The store is the list of all objects allocated so far; an address is an
  index into it, and allocation appends. A pointer is an address or nil (\<open>None\<close>).
\<close>

type_synonym addr = nat
type_synonym ptr = "addr option"

text \<open>
  A slice value: nil, or a window (offset, length) into a backing array. The capacity is
  left out: nothing in port.go reads it, and \<^verbatim>\<open>append\<close> to a nil slice never writes into
  an existing array.
\<close>

datatype slice = NilSlice | Slice addr nat nat

text \<open>\<^verbatim>\<open>url.URL\<close>. \<open>User\<close> points to an immutable \<^verbatim>\<open>url.Userinfo\<close>.\<close>

record url_URL =
  Scheme :: string
  Opaque :: string
  User :: ptr
  Host :: string
  Path :: string
  RawPath :: string
  OmitHost :: bool
  ForceQuery :: bool
  RawQuery :: string
  Fragment :: string
  RawFragment :: string

text \<open>
  The fields of \<^verbatim>\<open>http.Request\<close> that port.go and its specification speak about. \<open>Body\<close>
  is the handle of an \<^verbatim>\<open>io.ReadCloser\<close> and \<open>ctx\<close> the handle of a context; both
  live outside the store.
\<close>

record http_Request =
  Method :: string
  URL :: ptr
  Proto :: string
  ProtoMajor :: int
  ProtoMinor :: int
  Header :: ptr
  Body :: ptr
  ctx :: ptr

text \<open>
  A Go map \<^verbatim>\<open>map[string][]string\<close> is kept as an association list that stands for the
  finite map \<open>map_of\<close> of it.
\<close>

datatype obj =
    RequestObj http_Request
  | HeaderObj "(string \<times> slice) list"
  | ArrayObj "string list"
  | URLObj url_URL

type_synonym heap = "obj list"

text \<open>
  \<open>NilDereference\<close> is Go's run-time panic on a nil pointer. \<open>Dangling\<close> marks a store
  that no Go program can be in: a pointer to an address that holds no object of the
  pointer's type, or a slice that leaves its backing array.
\<close>

datatype fault = NilDereference | Dangling

definition deref :: "heap \<Rightarrow> addr \<Rightarrow> obj option" where
  "deref h a = (if a < length h then Some (h ! a) else None)"

definition alloc :: "obj \<Rightarrow> heap \<Rightarrow> addr \<times> heap" where
  "alloc x h = (length h, h @ [x])"

definition get_Request :: "heap \<Rightarrow> addr \<Rightarrow> fault + http_Request" where
  "get_Request h a = (case deref h a of Some (RequestObj v) \<Rightarrow> Inr v | _ \<Rightarrow> Inl Dangling)"

definition get_Header :: "heap \<Rightarrow> addr \<Rightarrow> fault + (string \<times> slice) list" where
  "get_Header h a = (case deref h a of Some (HeaderObj m) \<Rightarrow> Inr m | _ \<Rightarrow> Inl Dangling)"

definition get_Array :: "heap \<Rightarrow> addr \<Rightarrow> fault + string list" where
  "get_Array h a = (case deref h a of Some (ArrayObj xs) \<Rightarrow> Inr xs | _ \<Rightarrow> Inl Dangling)"

definition get_URL :: "heap \<Rightarrow> addr \<Rightarrow> fault + url_URL" where
  "get_URL h a = (case deref h a of Some (URLObj u) \<Rightarrow> Inr u | _ \<Rightarrow> Inl Dangling)"

text \<open>The elements a slice shows.\<close>

definition slice_elems :: "heap \<Rightarrow> slice \<Rightarrow> fault + string list" where
  "slice_elems h s =
     (case s of
        NilSlice \<Rightarrow> Inr []
      | Slice b off n \<Rightarrow>
          (case get_Array h b of
             Inl f \<Rightarrow> Inl f
           | Inr xs \<Rightarrow> if off + n \<le> length xs then Inr (take n (drop off xs)) else Inl Dangling))"

text \<open>
  \<^verbatim>\<open>for k, s := range m\<close> visits every key of the map once, with the value stored under
  it; over a nil map it visits nothing. Go fixes no order; the model takes the order of the
  association list.
\<close>

definition range_entries :: "(string \<times> slice) list \<Rightarrow> (string \<times> slice) list" where
  "range_entries m = map (\<lambda>k. (k, the (map_of m k))) (remdups (map fst m))"

definition range_Header :: "heap \<Rightarrow> ptr \<Rightarrow> fault + (string \<times> slice) list" where
  "range_Header h p =
     (case p of
        None \<Rightarrow> Inr []
      | Some a \<Rightarrow> (case get_Header h a of Inl f \<Rightarrow> Inl f | Inr m \<Rightarrow> Inr (range_entries m)))"

section \<open>cloneRequest\<close>

text \<open>
  \<^verbatim>\<open>append([]string(nil), s...)\<close>: appending nothing to the nil slice gives the nil slice
  back; otherwise a new backing array is allocated and filled with the elements of \<open>s\<close>.
\<close>

definition append_nil :: "slice \<Rightarrow> heap \<Rightarrow> fault + (slice \<times> heap)" where
  "append_nil s h =
     (case slice_elems h s of
        Inl f \<Rightarrow> Inl f
      | Inr xs \<Rightarrow>
          if xs = [] then Inr (NilSlice, h)
          else (let (b, h1) = alloc (ArrayObj xs) h in Inr (Slice b 0 (length xs), h1)))"

text \<open>
  The body of the loop, \<^verbatim>\<open>r2.Header[k] = append([]string(nil), s...)\<close>, over the entries
  that \<^verbatim>\<open>range r.Header\<close> yields. \<open>hm\<close> is the address of the map in \<^verbatim>\<open>r2.Header\<close>, which
  the loop never reassigns.
\<close>

fun copy_entries :: "addr \<Rightarrow> (string \<times> slice) list \<Rightarrow> heap \<Rightarrow> fault + heap" where
  "copy_entries hm [] h = Inr h"
| "copy_entries hm ((k, s) # es) h =
     (case append_nil s h of
        Inl f \<Rightarrow> Inl f
      | Inr (s2, h1) \<Rightarrow>
          (case get_Header h1 hm of
             Inl f \<Rightarrow> Inl f
           | Inr m \<Rightarrow> copy_entries hm es (h1[hm := HeaderObj (AList.update k s2 m)])))"

definition cloneRequest :: "ptr \<Rightarrow> heap \<Rightarrow> fault + (addr \<times> heap)" where
  "cloneRequest r h =
     (case r of
        None \<Rightarrow> Inl NilDereference
      | Some a \<Rightarrow>
          (case get_Request h a of
             Inl f \<Rightarrow> Inl f
           | Inr rv \<Rightarrow>
               \<comment> \<open>\<^verbatim>\<open>r2 := new(http.Request); *r2 = *r\<close>\<close>
               (let (r2, h1) = alloc (RequestObj rv) h;
                    \<comment> \<open>\<^verbatim>\<open>r2.Header = make(http.Header, len(r.Header))\<close>\<close>
                    (hm, h2) = alloc (HeaderObj []) h1;
                    h3 = h2[r2 := RequestObj (rv\<lparr>Header := Some hm\<rparr>)]
                in case range_Header h3 (Header rv) of
                     Inl f \<Rightarrow> Inl f
                   | Inr es \<Rightarrow>
                       (case copy_entries hm es h3 of
                          Inl f \<Rightarrow> Inl f
                        | Inr h4 \<Rightarrow>
                            (case URL rv of
                               None \<Rightarrow> Inr (r2, h4)
                             | Some u \<Rightarrow>
                                 (case get_URL h4 u of
                                    Inl f \<Rightarrow> Inl f
                                  | Inr uv \<Rightarrow>
                                      \<comment> \<open>\<^verbatim>\<open>r2URL := new(url.URL); *r2URL = *r.URL; r2.URL = r2URL\<close>\<close>
                                      (let (u2, h5) = alloc (URLObj uv) h4
                                       in Inr (r2, h5[r2 := RequestObj (rv\<lparr>Header := Some hm, URL := Some u2\<rparr>)]))))))))"

section \<open>What a request shows, and which objects it owns\<close>

text \<open>
  The values stored under a key of the request's header (\<^verbatim>\<open>r.Header[k]\<close>), and the URL
  value behind \<^verbatim>\<open>r.URL\<close>. A nil header or URL, and a key that is not in the map, show
  \<open>None\<close>.
\<close>

fun slice_array :: "slice \<Rightarrow> addr list" where
  "slice_array NilSlice = []"
| "slice_array (Slice b off n) = [b]"

definition header_values :: "heap \<Rightarrow> addr \<Rightarrow> string \<Rightarrow> string list option" where
  "header_values h a k =
     (case get_Request h a of
        Inl _ \<Rightarrow> None
      | Inr rv \<Rightarrow>
          (case Header rv of
             None \<Rightarrow> None
           | Some ha \<Rightarrow>
               (case get_Header h ha of
                  Inl _ \<Rightarrow> None
                | Inr m \<Rightarrow>
                    (case map_of m k of
                       None \<Rightarrow> None
                     | Some s \<Rightarrow> (case slice_elems h s of Inl _ \<Rightarrow> None | Inr xs \<Rightarrow> Some xs)))))"

definition url_value :: "heap \<Rightarrow> addr \<Rightarrow> url_URL option" where
  "url_value h a =
     (case get_Request h a of
        Inl _ \<Rightarrow> None
      | Inr rv \<Rightarrow>
          (case URL rv of
             None \<Rightarrow> None
           | Some u \<Rightarrow> (case get_URL h u of Inl _ \<Rightarrow> None | Inr uv \<Rightarrow> Some uv)))"

text \<open>
  The objects that can be written through a request's \<open>Header\<close> and \<open>URL\<close> fields: the
  header map, the backing arrays of its values, and the URL object.
\<close>

definition header_objects :: "heap \<Rightarrow> addr \<Rightarrow> addr list" where
  "header_objects h a =
     (case get_Request h a of
        Inl _ \<Rightarrow> []
      | Inr rv \<Rightarrow>
          (case Header rv of
             None \<Rightarrow> []
           | Some ha \<Rightarrow>
               ha # (case get_Header h ha of
                       Inl _ \<Rightarrow> []
                     | Inr m \<Rightarrow> concat (map (\<lambda>(k, s). slice_array s) m))))"

definition url_objects :: "heap \<Rightarrow> addr \<Rightarrow> addr list" where
  "url_objects h a =
     (case get_Request h a of
        Inl _ \<Rightarrow> []
      | Inr rv \<Rightarrow> (case URL rv of None \<Rightarrow> [] | Some u \<Rightarrow> [u]))"

text \<open>
  A request of a Go program points to objects that exist: its header map, the backing
  arrays of the slices in that map (each slice within its array), and its URL.
\<close>

definition valid_slice :: "heap \<Rightarrow> slice \<Rightarrow> bool" where
  "valid_slice h s = (case slice_elems h s of Inl _ \<Rightarrow> False | Inr _ \<Rightarrow> True)"

definition valid_request :: "heap \<Rightarrow> addr \<Rightarrow> bool" where
  "valid_request h a =
     (case get_Request h a of
        Inl _ \<Rightarrow> False
      | Inr rv \<Rightarrow>
          (case Header rv of
             None \<Rightarrow> True
           | Some ha \<Rightarrow>
               (case get_Header h ha of
                  Inl _ \<Rightarrow> False
                | Inr m \<Rightarrow> list_all (\<lambda>(k, s). valid_slice h s) m))
          \<and> (case URL rv of
                None \<Rightarrow> True
              | Some u \<Rightarrow> (case get_URL h u of Inl _ \<Rightarrow> False | Inr _ \<Rightarrow> True)))"

text \<open>The request object itself together with what its header and URL own.\<close>

definition clone_objects :: "heap \<Rightarrow> addr \<Rightarrow> addr list" where
  "clone_objects h r2 = r2 # header_objects h r2 @ url_objects h r2"

section \<open>Errors\<close>

text \<open>
  A Go \<^verbatim>\<open>error\<close> is nil (\<open>None\<close>) or an error value: the sentinel \<^verbatim>\<open>io.EOF\<close>, some other
  error of a collaborator, or the result of \<^verbatim>\<open>errors.Wrap\<close> of the package
  \<^verbatim>\<open>github.com/pkg/errors\<close>, which keeps its cause and adds a message (and gives nil for a
  nil cause).
\<close>

datatype error = EOF | Failure nat | Wrap error string

fun errors_Wrap :: "error option \<Rightarrow> string \<Rightarrow> error option" where
  "errors_Wrap None message = None"
| "errors_Wrap (Some err) message = Some (Wrap err message)"

section \<open>onEOFReader\<close>

text \<open>
  An \<^verbatim>\<open>io.ReadCloser\<close> is given by its two methods, acting on a state \<open>'s\<close>. \<open>Read\<close> takes
  the buffer \<^verbatim>\<open>p\<close> by its address; the bytes it delivers are part of the state.
\<close>

record 's ReadCloser =
  rc_Read :: "addr \<Rightarrow> 's \<Rightarrow> (int \<times> error option) \<times> 's"
  rc_Close :: "'s \<Rightarrow> error option \<times> 's"

text \<open>
  \<^verbatim>\<open>type onEOFReader struct { rc io.ReadCloser; fn func() }\<close>. The methods have a pointer
  receiver and \<open>runFunc\<close> assigns \<^verbatim>\<open>r.fn\<close>, so each method returns the reader as it is
  after the call. The callback \<open>fn\<close> acts on the state and has no hold of the reader
  itself: the one closure that port.go puts there, in \<open>RoundTrip\<close>, is
  \<^verbatim>\<open>func() { k.setModReq(req, nil) }\<close>.
\<close>

record 's onEOFReader =
  rc :: "'s ReadCloser"
  fn :: "('s \<Rightarrow> 's) option"

definition runFunc :: "'s onEOFReader \<Rightarrow> 's \<Rightarrow> 's onEOFReader \<times> 's" where
  "runFunc r s = (case fn r of None \<Rightarrow> (r, s) | Some f \<Rightarrow> (r\<lparr>fn := None\<rparr>, f s))"

definition onEOFReader_Read ::
  "'s onEOFReader \<Rightarrow> addr \<Rightarrow> 's \<Rightarrow> (int \<times> error option) \<times> 's onEOFReader \<times> 's" where
  "onEOFReader_Read r p s =
     (let ((n, err), s1) = rc_Read (rc r) p s
      in if err = Some EOF then (let (r1, s2) = runFunc r s1 in ((n, err), r1, s2))
         else ((n, err), r, s1))"

definition onEOFReader_Close :: "'s onEOFReader \<Rightarrow> 's \<Rightarrow> error option \<times> 's onEOFReader \<times> 's" where
  "onEOFReader_Close r s =
     (let (err, s1) = rc_Close (rc r) s;
          (r1, s2) = runFunc r s1
      in (err, r1, s2))"

text \<open>
  What the owner of a body does with it: any sequence of \<open>Read\<close> and \<open>Close\<close> calls. The
  run returns what each call returned, in order.
\<close>

datatype body_call = DoRead addr | DoClose

datatype body_result = ReadResult int "error option" | CloseResult "error option"

fun use_body ::
  "body_call list \<Rightarrow> 's onEOFReader \<Rightarrow> 's \<Rightarrow> body_result list \<times> 's onEOFReader \<times> 's" where
  "use_body [] r s = ([], r, s)"
| "use_body (DoRead p # cs) r s =
     (let ((n, err), r1, s1) = onEOFReader_Read r p s;
          (rs, r2, s2) = use_body cs r1 s1
      in (ReadResult n err # rs, r2, s2))"
| "use_body (DoClose # cs) r s =
     (let (err, r1, s1) = onEOFReader_Close r s;
          (rs, r2, s2) = use_body cs r1 s1
      in (CloseResult err # rs, r2, s2))"

text \<open>A call after which the body is finished: a \<open>Read\<close> that reported end of stream, or a \<open>Close\<close>.\<close>

fun finishes :: "body_result \<Rightarrow> bool" where
  "finishes (ReadResult n err) = (err = Some EOF)"
| "finishes (CloseResult err) = True"

text \<open>
  To count how often a callback runs, the state is paired with a counter that the
  callback increments and that the inner stream cannot reach.
\<close>

definition counting :: "('s \<Rightarrow> 's) \<Rightarrow> nat \<times> 's \<Rightarrow> nat \<times> 's" where
  "counting f = (\<lambda>(c, s). (Suc c, f s))"

definition beside_counter :: "'s ReadCloser \<Rightarrow> (nat \<times> 's) ReadCloser" where
  "beside_counter inner =
     \<lparr>rc_Read = (\<lambda>p (c, s). let (res, s1) = rc_Read inner p s in (res, (c, s1))),
      rc_Close = (\<lambda>(c, s). let (err, s1) = rc_Close inner s in (err, (c, s1)))\<rparr>"

section \<open>RequestIntercepter\<close>

text \<open>
  The collaborators of the interceptor act on the object store and on a state \<open>'e\<close> of
  their own (the network, the streams). A \<^verbatim>\<open>http.RoundTripper\<close> has the method
  \<open>RoundTrip\<close>; its dynamic type may also have \<^verbatim>\<open>CancelRequest(*http.Request)\<close>, which is
  what the type assertion in \<open>CancelRequest\<close> asks for. A response is taken by value, with
  its status and its body; the body a transport returns is the handle of a stream.
\<close>

record 'b http_Response =
  StatusCode :: int
  res_Body :: 'b

record 'e RoundTripper =
  rt_RoundTrip :: "ptr \<Rightarrow> heap \<Rightarrow> 'e \<Rightarrow> (addr http_Response option \<times> error option) \<times> heap \<times> 'e"
  rt_CancelRequest :: "(ptr \<Rightarrow> heap \<Rightarrow> 'e \<Rightarrow> heap \<times> 'e) option"

text \<open>
  What the program finds around it: \<^verbatim>\<open>http.DefaultTransport\<close>, and the methods of the
  streams behind the body handles.
\<close>

record 'e environment =
  DefaultTransport :: "'e RoundTripper"
  stream_Read :: "addr \<Rightarrow> addr \<Rightarrow> 'e \<Rightarrow> (int \<times> error option) \<times> 'e"
  stream_Close :: "addr \<Rightarrow> 'e \<Rightarrow> error option \<times> 'e"

text \<open>
  The fields of \<^verbatim>\<open>RequestIntercepter\<close> that are set once: \<open>requestModifier\<close> (its method
  \<open>Intercept\<close>, or nil) and \<open>Base\<close>. The map \<open>modReq\<close> changes and is part of the world
  below. The mutex \<open>mu\<close> is held only inside \<open>setModReq\<close> and \<open>CancelRequest\<close>, around
  the accesses to the map, and released before they return or call anything; on one thread
  of control it is always free when it is locked, so it is not part of the state.
\<close>

record 'e RequestIntercepter =
  requestModifier :: "(ptr \<Rightarrow> heap \<Rightarrow> 'e \<Rightarrow> error option \<times> heap \<times> 'e) option"
  Base :: "'e RoundTripper option"

definition NewRequestInterceptor ::
  "'e environment \<Rightarrow> 'e RoundTripper option
     \<Rightarrow> (ptr \<Rightarrow> heap \<Rightarrow> 'e \<Rightarrow> error option \<times> heap \<times> 'e) option \<Rightarrow> 'e RequestIntercepter" where
  "NewRequestInterceptor env baseTransport modifier =
     (let t = (case baseTransport of None \<Rightarrow> DefaultTransport env | Some t \<Rightarrow> t)
      in \<lparr>requestModifier = modifier, Base = Some t\<rparr>)"

definition base :: "'e RequestIntercepter \<Rightarrow> 'e environment \<Rightarrow> 'e RoundTripper" where
  "base k env = (case Base k of Some t \<Rightarrow> t | None \<Rightarrow> DefaultTransport env)"

text \<open>
  The history records, in order, the calls the interceptor makes to its collaborators and
  its operations on the map.
\<close>

datatype event =
    CallIntercept ptr
  | CallRoundTrip ptr
  | CallCancelRequest ptr
  | CallBodyClose addr
  | MapStore ptr ptr
  | MapDelete ptr
  | MapLoad ptr

record 'e world =
  store :: heap
  ext :: 'e
  modReq :: "(ptr \<rightharpoonup> ptr) option"
  hist :: "event list"

text \<open>The entries of \<open>modReq\<close>; a nil map has none.\<close>

definition entries :: "'e world \<Rightarrow> ptr \<rightharpoonup> ptr" where
  "entries w = (case modReq w of None \<Rightarrow> Map.empty | Some m \<Rightarrow> m)"

definition setModReq :: "ptr \<Rightarrow> ptr \<Rightarrow> 'e world \<Rightarrow> 'e world" where
  "setModReq orig modified w =
     (let m = (case modReq w of None \<Rightarrow> Map.empty | Some m \<Rightarrow> m)
      in case modified of
           None \<Rightarrow> w\<lparr>modReq := Some (m(orig := None)), hist := hist w @ [MapDelete orig]\<rparr>
         | Some _ \<Rightarrow>
             w\<lparr>modReq := Some (m(orig \<mapsto> modified)), hist := hist w @ [MapStore orig modified]\<rparr>)"

text \<open>
  \<^verbatim>\<open>k.modReq[req]\<close> on a nil map or a missing key is nil, and \<^verbatim>\<open>delete\<close> on a nil map does
  nothing. \<open>CancelRequest\<close> touches the map only when the transport can cancel.
\<close>

definition CancelRequest ::
  "'e RequestIntercepter \<Rightarrow> 'e environment \<Rightarrow> ptr \<Rightarrow> 'e world \<Rightarrow> 'e world" where
  "CancelRequest k env req w =
     (case rt_CancelRequest (base k env) of
        None \<Rightarrow> w
      | Some cr_CancelRequest \<Rightarrow>
          (let modReq_req = (case entries w req of None \<Rightarrow> None | Some v \<Rightarrow> v);
               w1 = w\<lparr>modReq := (case modReq w of None \<Rightarrow> None | Some m \<Rightarrow> Some (m(req := None))),
                      hist := hist w @ [MapLoad req, MapDelete req, CallCancelRequest modReq_req]\<rparr>;
               (h2, x2) = cr_CancelRequest modReq_req (store w1) (ext w1)
           in w1\<lparr>store := h2, ext := x2\<rparr>))"

text \<open>The stream behind a body handle, as a \<open>ReadCloser\<close> on the world.\<close>

definition stream_rc :: "'e environment \<Rightarrow> addr \<Rightarrow> 'e world ReadCloser" where
  "stream_rc env b =
     \<lparr>rc_Read = (\<lambda>p w. let (res, x) = stream_Read env b p (ext w) in (res, w\<lparr>ext := x\<rparr>)),
      rc_Close = (\<lambda>w. let (err, x) = stream_Close env b (ext w) in (err, w\<lparr>ext := x\<rparr>))\<rparr>"

text \<open>
  A call returns or panics. \<open>RoundTrip_body\<close> is the function body after the \<^verbatim>\<open>defer\<close>
  statement, for a request that is not nil; beside its outcome it gives the value of
  \<open>reqBodyClosed\<close> on leaving. \<open>RoundTrip\<close> adds what comes before (reading \<^verbatim>\<open>req.Body\<close>)
  and the deferred function, which runs on return and on panic alike.
\<close>

datatype 'a outcome = Return 'a | Panic fault

type_synonym 'e result = "('e world onEOFReader http_Response option \<times> error option) outcome"

definition RoundTrip_body ::
  "'e RequestIntercepter \<Rightarrow> 'e environment \<Rightarrow> addr \<Rightarrow> 'e world \<Rightarrow> 'e result \<times> bool \<times> 'e world" where
  "RoundTrip_body k env a w =
     (case cloneRequest (Some a) (store w) of
        Inl f \<Rightarrow> (Panic f, False, w)
      | Inr (req2, h1) \<Rightarrow>
          (case requestModifier k of
             None \<Rightarrow> (Panic NilDereference, False, w\<lparr>store := h1\<rparr>)
           | Some Intercept \<Rightarrow>
               (let (err, h2, x2) = Intercept (Some req2) h1 (ext w);
                    w2 = w\<lparr>store := h2, ext := x2, hist := hist w @ [CallIntercept (Some req2)]\<rparr>
                in case err of
                     Some e \<Rightarrow>
                       (Return (None, errors_Wrap (Some e) ''error while intercepting request''),
                        False, w2)
                   | None \<Rightarrow>
                       (let w3 = setModReq (Some a) (Some req2) w2;
                            ((res, err), h5, x5) =
                               rt_RoundTrip (base k env) (Some req2) (store w3) (ext w3);
                            w5 = w3\<lparr>store := h5, ext := x5,
                                    hist := hist w3 @ [CallRoundTrip (Some req2)]\<rparr>
                        in case err of
                             Some e \<Rightarrow> (Return (None, Some e), True, setModReq (Some a) None w5)
                           | None \<Rightarrow>
                               (case res of
                                  None \<Rightarrow> (Panic NilDereference, True, w5)
                                | Some resp \<Rightarrow>
                                    (Return
                                       (Some \<lparr>StatusCode = StatusCode resp,
                                              res_Body = \<lparr>rc = stream_rc env (res_Body resp),
                                                          fn = Some (setModReq (Some a) None)\<rparr>\<rparr>,
                                        None),
                                     True, w5))))))"

text \<open>The deferred \<^verbatim>\<open>_ = req.Body.Close()\<close>, reading \<^verbatim>\<open>req.Body\<close> when it runs.\<close>

definition close_req_Body ::
  "'e environment \<Rightarrow> addr \<Rightarrow> 'e result \<Rightarrow> 'e world \<Rightarrow> 'e result \<times> 'e world" where
  "close_req_Body env a out w =
     (case get_Request (store w) a of
        Inl f \<Rightarrow> (Panic f, w)
      | Inr rv \<Rightarrow>
          (case Body rv of
             None \<Rightarrow> (Panic NilDereference, w)
           | Some b \<Rightarrow>
               (let (err, x) = stream_Close env b (ext w)
                in (out, w\<lparr>ext := x, hist := hist w @ [CallBodyClose b]\<rparr>))))"

definition RoundTrip ::
  "'e RequestIntercepter \<Rightarrow> 'e environment \<Rightarrow> ptr \<Rightarrow> 'e world \<Rightarrow> 'e result \<times> 'e world" where
  "RoundTrip k env req w =
     (case req of
        None \<Rightarrow> (Panic NilDereference, w)
      | Some a \<Rightarrow>
          (case get_Request (store w) a of
             Inl f \<Rightarrow> (Panic f, w)
           | Inr rv \<Rightarrow>
               (let (out, reqBodyClosed, w1) = RoundTrip_body k env a w
                in if Body rv \<noteq> None \<and> \<not> reqBodyClosed then close_req_Body env a out w1
                   else (out, w1))))"

section \<open>Concrete stores\<close>

text \<open>
  A request with neither header nor URL, and one with both. The body stream of the second
  has the handle 70 and its context the handle 90.
\<close>

definition req0 :: http_Request where
  "req0 = \<lparr>Method = ''GET'', URL = None, Proto = ''HTTP/1.1'', ProtoMajor = 1, ProtoMinor = 1,
            Header = None, Body = None, ctx = None\<rparr>"

definition url1 :: url_URL where
  "url1 = \<lparr>Scheme = ''https'', Opaque = [], User = None, Host = ''example.org'', Path = ''/a'',
           RawPath = [], OmitHost = False, ForceQuery = False, RawQuery = ''q=1'', Fragment = [],
           RawFragment = []\<rparr>"

definition req1 :: http_Request where
  "req1 = \<lparr>Method = ''POST'', URL = Some 3, Proto = ''HTTP/1.1'', ProtoMajor = 1, ProtoMinor = 1,
            Header = Some 1, Body = Some 70, ctx = Some 90\<rparr>"

definition heap1 :: heap where
  "heap1 = [RequestObj req1, HeaderObj [(''Accept'', Slice 2 1 2), (''X-Empty'', NilSlice)],
            ArrayObj [''zero'', ''text/html'', ''text/plain''], URLObj url1]"

text \<open>
  The store after cloning the request at address 0 of \<open>heap1\<close>, and after the modifier
  below has then set its header on the clone.
\<close>

definition heap1_cloned :: heap where
  "heap1_cloned =
     [RequestObj req1,
      HeaderObj [(''Accept'', Slice 2 1 2), (''X-Empty'', NilSlice)],
      ArrayObj [''zero'', ''text/html'', ''text/plain''],
      URLObj url1,
      RequestObj (req1\<lparr>Header := Some 5, URL := Some 7\<rparr>),
      HeaderObj [(''Accept'', Slice 6 0 2), (''X-Empty'', NilSlice)],
      ArrayObj [''text/html'', ''text/plain''],
      URLObj url1]"

definition heap1_sent :: heap where
  "heap1_sent =
     [RequestObj req1,
      HeaderObj [(''Accept'', Slice 2 1 2), (''X-Empty'', NilSlice)],
      ArrayObj [''zero'', ''text/html'', ''text/plain''],
      URLObj url1,
      RequestObj (req1\<lparr>Header := Some 5, URL := Some 7\<rparr>),
      HeaderObj [(''Accept'', Slice 6 0 2), (''X-Empty'', NilSlice), (''Intercepted'', Slice 8 0 1)],
      ArrayObj [''text/html'', ''text/plain''],
      URLObj url1,
      ArrayObj [''true'']]"

text \<open>
  Collaborators whose state is the list of the streams closed so far. The transports close
  the body of the request they are given, as the contract of \<^verbatim>\<open>http.RoundTripper\<close> asks.
  Two of them are round trippers with the method \<open>RoundTrip\<close> only: one answers with status
  200, one fails. The third has \<open>CancelRequest\<close> too, as \<^verbatim>\<open>*http.Transport\<close> has; it is
  the default transport. Every stream is at its end, and closing it is recorded.
\<close>

definition closes_req_Body :: "ptr \<Rightarrow> heap \<Rightarrow> addr list \<Rightarrow> addr list" where
  "closes_req_Body p h x =
     (case p of
        None \<Rightarrow> x
      | Some r \<Rightarrow>
          (case get_Request h r of
             Inl _ \<Rightarrow> x
           | Inr rq \<Rightarrow> (case Body rq of None \<Rightarrow> x | Some b \<Rightarrow> x @ [b])))"

definition plain_transport :: "addr list RoundTripper" where
  "plain_transport =
     \<lparr>rt_RoundTrip = (\<lambda>p h x. ((Some \<lparr>StatusCode = 200, res_Body = 80\<rparr>, None), h, closes_req_Body p h x)),
      rt_CancelRequest = None\<rparr>"

definition refusing_transport :: "addr list RoundTripper" where
  "refusing_transport =
     \<lparr>rt_RoundTrip = (\<lambda>p h x. ((None, Some (Failure 2)), h, closes_req_Body p h x)),
      rt_CancelRequest = None\<rparr>"

definition cancelling_transport :: "addr list RoundTripper" where
  "cancelling_transport =
     \<lparr>rt_RoundTrip = (\<lambda>p h x. ((Some \<lparr>StatusCode = 200, res_Body = 80\<rparr>, None), h, closes_req_Body p h x)),
      rt_CancelRequest = Some (\<lambda>p h x. (h, x))\<rparr>"

definition env1 :: "addr list environment" where
  "env1 = \<lparr>DefaultTransport = cancelling_transport,
           stream_Read = (\<lambda>b p x. ((0, Some EOF), x)),
           stream_Close = (\<lambda>b x. (None, x @ [b]))\<rparr>"

text \<open>
  A modifier that does \<^verbatim>\<open>r.Header.Set("intercepted", "true")\<close> on the request it is given
  (the key in its canonical form, the value in a new one-element array), and one that fails.
\<close>

definition set_intercepted :: "ptr \<Rightarrow> heap \<Rightarrow> addr list \<Rightarrow> error option \<times> heap \<times> addr list" where
  "set_intercepted p h x =
     (case p of
        None \<Rightarrow> (Some (Failure 0), h, x)
      | Some r \<Rightarrow>
          (case get_Request h r of
             Inl _ \<Rightarrow> (Some (Failure 0), h, x)
           | Inr rq \<Rightarrow>
               (case Header rq of
                  None \<Rightarrow> (Some (Failure 0), h, x)
                | Some hm \<Rightarrow>
                    (case get_Header h hm of
                       Inl _ \<Rightarrow> (Some (Failure 0), h, x)
                     | Inr m \<Rightarrow>
                         (let (b, h1) = alloc (ArrayObj [''true'']) h
                          in (None, h1[hm := HeaderObj (AList.update ''Intercepted'' (Slice b 0 1) m)], x))))))"

definition reject :: "ptr \<Rightarrow> heap \<Rightarrow> addr list \<Rightarrow> error option \<times> heap \<times> addr list" where
  "reject p h x = (Some (Failure 1), h, x)"



text \<open>
  A world with no request in flight, and interceptors for it: on the default transport
  (\<open>k_reject\<close>, \<open>k_cancelling\<close>) and on a transport of the caller's.
\<close>

definition world1 :: "addr list world" where
  "world1 = \<lparr>store = heap1, ext = [], modReq = None, hist = []\<rparr>"

definition k_reject :: "addr list RequestIntercepter" where
  "k_reject = NewRequestInterceptor env1 None (Some reject)"

definition k_plain :: "addr list RequestIntercepter" where
  "k_plain = NewRequestInterceptor env1 (Some plain_transport) (Some set_intercepted)"

definition k_refused :: "addr list RequestIntercepter" where
  "k_refused = NewRequestInterceptor env1 (Some refusing_transport) (Some set_intercepted)"

definition k_cancelling :: "addr list RequestIntercepter" where
  "k_cancelling = NewRequestInterceptor env1 None (Some set_intercepted)"


text \<open>The world after the request at address 0 has been sent and before its response body is read.\<close>

definition in_flight :: "addr list RequestIntercepter \<Rightarrow> addr list world" where
  "in_flight k = snd (RoundTrip k env1 (Some 0) world1)"

section \<open>Properties of cloneRequest\<close>

subsection \<open>Slices and the copy loop\<close>

lemma valid_sliceD: "valid_slice h s \<Longrightarrow> \<exists>xs. slice_elems h s = Inr xs"
  by (cases "slice_elems h s") (auto simp: valid_slice_def)

lemma slice_elems_frame:
  assumes "slice_elems h s = Inr xs" "length h \<le> length h'"
    and "\<forall>x<length h. (\<exists>ys. h ! x = ArrayObj ys) \<longrightarrow> h' ! x = h ! x"
  shows "slice_elems h' s = Inr xs"
  using assms
  by (cases s) (auto simp: slice_elems_def get_Array_def deref_def split: if_splits option.splits obj.splits sum.splits)

lemma append_nil_spec:
  assumes "slice_elems h s = Inr xs"
  shows "\<exists>s2 h1. append_nil s h = Inr (s2, h1) \<and> slice_elems h1 s2 = Inr xs
     \<and> (s2 = NilSlice \<and> h1 = h \<or> s2 = Slice (length h) 0 (length xs) \<and> h1 = h @ [ArrayObj xs])"
  using assms
  by (auto simp: append_nil_def alloc_def slice_elems_def get_Array_def deref_def)

lemma copy_entries_spec:
  assumes "hm < length h" "h ! hm = HeaderObj m" "distinct (map fst es)"
    and "\<forall>(k, s) \<in> set es. valid_slice h s"
  shows "\<exists>h' m'. copy_entries hm es h = Inr h' \<and> length h \<le> length h'
     \<and> (\<forall>x<length h. x \<noteq> hm \<longrightarrow> h' ! x = h ! x) \<and> h' ! hm = HeaderObj m'
     \<and> (distinct (map fst m) \<longrightarrow> distinct (map fst m'))
     \<and> (\<forall>k. case map_of es k of
              None \<Rightarrow> map_of m' k = map_of m k
            | Some s \<Rightarrow> (\<exists>s2. map_of m' k = Some s2 \<and> slice_elems h' s2 = slice_elems h s
                 \<and> (s2 = NilSlice \<or> (\<exists>b n. s2 = Slice b 0 n \<and> length h \<le> b \<and> b < length h'))))"
  using assms
proof (induction es arbitrary: h m)
  case Nil
  then show ?case by simp
next
  case (Cons e es)
  obtain k s where e: "e = (k, s)" by (cases e)
  from Cons.prems(4) e have "valid_slice h s" by simp
  then obtain xs where xs: "slice_elems h s = Inr xs" by (auto dest: valid_sliceD)
  from append_nil_spec[OF xs] obtain s2 h1 where a: "append_nil s h = Inr (s2, h1)"
    and s2: "slice_elems h1 s2 = Inr xs"
    and sh: "s2 = NilSlice \<and> h1 = h \<or> s2 = Slice (length h) 0 (length xs) \<and> h1 = h @ [ArrayObj xs]"
    by blast
  let ?m1 = "AList.update k s2 m"
  let ?h2 = "h1[hm := HeaderObj ?m1]"
  have len: "length h \<le> length h1" "length ?h2 = length h1" using sh by auto
  have h1hm: "h1 ! hm = HeaderObj m" using sh Cons.prems(1,2) by (auto simp: nth_append)
  have gh: "get_Header h1 hm = Inr m" using h1hm len Cons.prems(1) by (simp add: get_Header_def deref_def)
  have fr: "\<forall>x<length h. x \<noteq> hm \<longrightarrow> ?h2 ! x = h ! x" using sh by (auto simp: nth_append)
  have fr': "\<forall>x<length h. (\<exists>ys. h ! x = ArrayObj ys) \<longrightarrow> ?h2 ! x = h ! x"
    using sh Cons.prems(1,2) by (auto simp: nth_append nth_list_update)
  have f': "\<forall>x<length ?h2. (\<exists>ys. ?h2 ! x = ArrayObj ys) \<longrightarrow> h' ! x = ?h2 ! x" if
    "\<forall>x<length ?h2. x \<noteq> hm \<longrightarrow> h' ! x = ?h2 ! x" for h'
    using that len Cons.prems(1) by (metis nth_list_update_eq obj.distinct(7))
  have p1: "hm < length ?h2" using len Cons.prems(1) by simp
  have p2: "?h2 ! hm = HeaderObj ?m1" using p1 by simp
  have p3: "distinct (map fst es)" using Cons.prems(3) by simp
  have p4: "\<forall>(k, s) \<in> set es. valid_slice ?h2 s"
  proof clarify
    fix k' s' assume "(k', s') \<in> set es"
    with Cons.prems(4) have "valid_slice h s'" by auto
    then obtain ys where "slice_elems h s' = Inr ys" by (auto dest: valid_sliceD)
    from slice_elems_frame[OF this, of ?h2] fr' len
    show "valid_slice ?h2 s'" by (simp add: valid_slice_def)
  qed
  from Cons.IH[OF p1 p2 p3 p4] obtain h' m' where
    c: "copy_entries hm es ?h2 = Inr h'" and l: "length ?h2 \<le> length h'"
    and f: "\<forall>x<length ?h2. x \<noteq> hm \<longrightarrow> h' ! x = ?h2 ! x" and hd: "h' ! hm = HeaderObj m'"
    and di: "distinct (map fst ?m1) \<longrightarrow> distinct (map fst m')"
    and mp: "\<forall>k. case map_of es k of
              None \<Rightarrow> map_of m' k = map_of ?m1 k
            | Some s \<Rightarrow> (\<exists>s2. map_of m' k = Some s2 \<and> slice_elems h' s2 = slice_elems ?h2 s
                 \<and> (s2 = NilSlice \<or> (\<exists>b n. s2 = Slice b 0 n \<and> length ?h2 \<le> b \<and> b < length h')))"
    by blast
  have r1: "copy_entries hm (e # es) h = Inr h'" using e a gh c by simp
  have r2: "length h \<le> length h'" using len l by simp
  have r3: "\<forall>x<length h. x \<noteq> hm \<longrightarrow> h' ! x = h ! x" using f fr len by auto
  have r5: "case map_of (e # es) k' of
              None \<Rightarrow> map_of m' k' = map_of m k'
            | Some s \<Rightarrow> (\<exists>s2. map_of m' k' = Some s2 \<and> slice_elems h' s2 = slice_elems h s
                 \<and> (s2 = NilSlice \<or> (\<exists>b n. s2 = Slice b 0 n \<and> length h \<le> b \<and> b < length h')))" for k'
  proof (cases "k' = k")
    case True
    have "map_of es k = None" using Cons.prems(3) e by (auto simp: map_of_eq_None_iff)
    with mp have m'k: "map_of m' k = Some s2" by (auto simp: update_conv' split: option.splits dest!: spec[where x=k])
    have "slice_elems ?h2 s2 = Inr xs"
      using sh s2 Cons.prems(1,2)
      by (auto simp: slice_elems_def get_Array_def deref_def nth_append)
    then have "slice_elems h' s2 = Inr xs"
      by (rule slice_elems_frame[OF _ l f'[OF f]])
    moreover have "s2 = NilSlice \<or> (\<exists>b n. s2 = Slice b 0 n \<and> length h \<le> b \<and> b < length h')"
      using sh l by auto
    ultimately show ?thesis using True e m'k xs by simp
  next
    case False
    show ?thesis
    proof (cases "map_of es k'")
      case None
      with mp have "map_of m' k' = map_of ?m1 k'" by (auto dest!: spec[where x=k'])
      then show ?thesis using False None e by (simp add: update_conv')
    next
      case (Some s')
      then have "(k', s') \<in> set es" by (rule map_of_SomeD)
      with Cons.prems(4) have "valid_slice h s'" by auto
      then obtain ys where ys: "slice_elems h s' = Inr ys" by (auto dest: valid_sliceD)
      from slice_elems_frame[OF this, of ?h2] fr' len
      have "slice_elems ?h2 s' = slice_elems h s'" using ys by simp
      with mp Some False e len show ?thesis
        by (auto dest!: spec[where x=k'])
    qed
  qed
  have r4: "distinct (map fst m) \<longrightarrow> distinct (map fst m')"
    using di by (simp add: distinct_update)
  show ?case using r1 r2 r3 hd r4 r5 by blast
qed


subsection \<open>Iterating over a map\<close>

lemma distinct_range_entries: "distinct (map fst (range_entries m))"
  by (simp add: range_entries_def comp_def)

lemma map_of_range_entries: "map_of (range_entries m) k = map_of m k"
proof (cases "map_of m k")
  case None
  then have "k \<notin> fst ` set m" by (simp add: map_of_eq_None_iff)
  then have "k \<notin> fst ` set (range_entries m)" by (force simp: range_entries_def)
  then have "map_of (range_entries m) k = None" by (simp add: map_of_eq_None_iff)
  then show ?thesis using None by simp
next
  case (Some s)
  then have "k \<in> fst ` set m" by (metis map_of_eq_None_iff option.distinct(1))
  then have "(k, s) \<in> set (range_entries m)" using Some by (auto simp: range_entries_def)
  then show ?thesis using Some distinct_range_entries[of m] by simp
qed

lemma set_range_entries: "set (range_entries m) \<subseteq> set m"
proof
  fix e assume "e \<in> set (range_entries m)"
  then obtain k where k: "k \<in> fst ` set m" and e: "e = (k, the (map_of m k))"
    by (auto simp: range_entries_def)
  from k obtain s where "map_of m k = Some s"
    by (metis map_of_eq_None_iff option.exhaust)
  then show "e \<in> set m" using e by (auto dest: map_of_SomeD)
qed


subsection \<open>The store after cloneRequest\<close>

lemma cloneRequest_spec:
  assumes v: "valid_request h a"
  shows "\<exists>rv mo h' m'. get_Request h a = Inr rv
     \<and> (case Header rv of None \<Rightarrow> mo = [] | Some ha \<Rightarrow> get_Header h ha = Inr mo)
     \<and> cloneRequest (Some a) h = Inr (length h, h')
     \<and> length h + 2 \<le> length h'
     \<and> (\<forall>x<length h. h' ! x = h ! x)
     \<and> h' ! Suc (length h) = HeaderObj m' \<and> distinct (map fst m')
     \<and> (\<forall>k. case map_of mo k of
              None \<Rightarrow> map_of m' k = None
            | Some s \<Rightarrow> (\<exists>s2. map_of m' k = Some s2 \<and> slice_elems h' s2 = slice_elems h s
                 \<and> (s2 = NilSlice \<or> (\<exists>b n. s2 = Slice b 0 n \<and> length h + 2 \<le> b \<and> b < length h'))))
     \<and> (case URL rv of
           None \<Rightarrow> h' ! length h = RequestObj (rv\<lparr>Header := Some (Suc (length h))\<rparr>)
         | Some u \<Rightarrow> (\<exists>uv. get_URL h u = Inr uv \<and> length h + 3 \<le> length h'
               \<and> h' ! (length h' - 1) = URLObj uv
               \<and> (\<forall>k s2. map_of m' k = Some s2 \<longrightarrow> length h' - 1 \<notin> set (slice_array s2))
               \<and> h' ! length h =
                   RequestObj (rv\<lparr>Header := Some (Suc (length h)), URL := Some (length h' - 1)\<rparr>)))"
proof -
  from v obtain rv where rv: "get_Request h a = Inr rv"
    by (auto simp: valid_request_def split: sum.splits)
  define mo where "mo = (case Header rv of None \<Rightarrow> [] | Some ha \<Rightarrow> projr (get_Header h ha))"
  have mo: "case Header rv of None \<Rightarrow> mo = [] | Some ha \<Rightarrow> get_Header h ha = Inr mo"
  proof (cases "Header rv")
    case None
    then show ?thesis by (simp add: mo_def)
  next
    case (Some ha)
    with v rv obtain m where "get_Header h ha = Inr m"
      by (cases "get_Header h ha") (auto simp: valid_request_def)
    then show ?thesis using Some by (simp add: mo_def)
  qed
  have vs: "\<forall>(k, s) \<in> set mo. valid_slice h s"
    using v rv mo by (auto simp: valid_request_def list_all_iff split: sum.splits option.splits)
  let ?r2 = "length h"
  let ?hm = "Suc (length h)"
  let ?h3 = "(h @ [RequestObj rv] @ [HeaderObj []])[?r2 := RequestObj (rv\<lparr>Header := Some ?hm\<rparr>)]"
  let ?es = "range_entries mo"
  have l3: "length ?h3 = length h + 2" by simp
  have fr3: "\<forall>x<length h. ?h3 ! x = h ! x" by (simp add: nth_append)
  have rh: "range_Header ?h3 (Header rv) = Inr ?es"
    using mo by (auto simp: range_Header_def range_entries_def get_Header_def deref_def nth_append
        split: option.splits if_splits)
  have q1: "?hm < length ?h3" by simp
  have q2: "?h3 ! ?hm = HeaderObj []" by (simp add: nth_append)
  have q4: "\<forall>(k, s) \<in> set ?es. valid_slice ?h3 s"
  proof clarify
    fix k s assume "(k, s) \<in> set ?es"
    then have "(k, s) \<in> set mo" using set_range_entries by blast
    with vs have "valid_slice h s" by auto
    then obtain xs where "slice_elems h s = Inr xs" by (auto dest: valid_sliceD)
    from slice_elems_frame[OF this, of ?h3] fr3 show "valid_slice ?h3 s"
      by (simp add: valid_slice_def)
  qed
  from copy_entries_spec[OF q1 q2 distinct_range_entries q4] obtain h4 m' where
    c: "copy_entries ?hm ?es ?h3 = Inr h4" and l4: "length ?h3 \<le> length h4"
    and f4: "\<forall>x<length ?h3. x \<noteq> ?hm \<longrightarrow> h4 ! x = ?h3 ! x"
    and hd4: "h4 ! ?hm = HeaderObj m'" and di: "distinct (map fst m')"
    and mp: "\<forall>k. case map_of ?es k of
              None \<Rightarrow> map_of m' k = map_of [] k
            | Some s \<Rightarrow> (\<exists>s2. map_of m' k = Some s2 \<and> slice_elems h4 s2 = slice_elems ?h3 s
                 \<and> (s2 = NilSlice \<or> (\<exists>b n. s2 = Slice b 0 n \<and> length ?h3 \<le> b \<and> b < length h4)))"
    by auto
  have fr4: "\<forall>x<length h. h4 ! x = h ! x" using f4 fr3 by (simp add: nth_append)
  have r2_4: "h4 ! ?r2 = RequestObj (rv\<lparr>Header := Some ?hm\<rparr>)"
    using f4 by (simp add: nth_append)
  have mp4: "case map_of mo k of
              None \<Rightarrow> map_of m' k = None
            | Some s \<Rightarrow> (\<exists>s2. map_of m' k = Some s2 \<and> slice_elems h4 s2 = slice_elems h s
                 \<and> (s2 = NilSlice \<or> (\<exists>b n. s2 = Slice b 0 n \<and> length h + 2 \<le> b \<and> b < length h4)))" for k
  proof (cases "map_of mo k")
    case None
    with mp show ?thesis by (auto simp: map_of_range_entries dest!: spec[where x=k])
  next
    case (Some s)
    then have "(k, s) \<in> set mo" by (rule map_of_SomeD)
    with vs have "valid_slice h s" by auto
    then obtain xs where xs: "slice_elems h s = Inr xs" by (auto dest: valid_sliceD)
    from slice_elems_frame[OF this, of ?h3] fr3 have "slice_elems ?h3 s = slice_elems h s"
      using xs by simp
    with mp Some show ?thesis by (auto simp: map_of_range_entries dest!: spec[where x=k])
  qed
  show ?thesis
  proof (cases "URL rv")
    case None
    have "cloneRequest (Some a) h = Inr (?r2, h4)"
      using rv rh c None by (simp add: cloneRequest_def alloc_def)
    then show ?thesis using rv mo l4 fr4 hd4 di mp4 r2_4 None
      by (intro exI[of _ rv], intro exI[of _ mo], intro exI[of _ h4], intro exI[of _ m']) simp
  next
    case (Some u)
    with v rv obtain uv where uv: "get_URL h u = Inr uv"
      by (auto simp: valid_request_def split: sum.splits)
    then have u: "u < length h" "h ! u = URLObj uv"
      by (auto simp: get_URL_def deref_def split: if_splits option.splits obj.splits)
    have uv4: "get_URL h4 u = Inr uv" using u fr4 l4 by (simp add: get_URL_def deref_def)
    let ?u2 = "length h4"
    let ?h5 = "(h4 @ [URLObj uv])[?r2 := RequestObj (rv\<lparr>Header := Some ?hm, URL := Some ?u2\<rparr>)]"
    have cl: "cloneRequest (Some a) h = Inr (?r2, ?h5)"
      using rv rh c Some uv4 by (simp add: cloneRequest_def alloc_def)
    have l5: "length ?h5 = Suc (length h4)" by simp
    have fr5: "\<forall>x<length h. ?h5 ! x = h ! x" using fr4 l4 by (simp add: nth_append)
    have hd5: "?h5 ! ?hm = HeaderObj m'" using hd4 l4 by (simp add: nth_append)
    have fa: "\<forall>x<length h4. (\<exists>ys. h4 ! x = ArrayObj ys) \<longrightarrow> ?h5 ! x = h4 ! x"
    proof (intro allI impI)
      fix x assume x: "x < length h4" and "\<exists>ys. h4 ! x = ArrayObj ys"
      then have "x \<noteq> length h" using r2_4 by auto
      then show "?h5 ! x = h4 ! x" using x by (simp add: nth_append)
    qed
    have mp5: "case map_of mo k of
              None \<Rightarrow> map_of m' k = None
            | Some s \<Rightarrow> (\<exists>s2. map_of m' k = Some s2 \<and> slice_elems ?h5 s2 = slice_elems h s
                 \<and> (s2 = NilSlice \<or> (\<exists>b n. s2 = Slice b 0 n \<and> length h + 2 \<le> b \<and> b < length ?h5)))" for k
    proof (cases "map_of mo k")
      case None
      with mp4[of k] show ?thesis by simp
    next
      case (Some s)
      then have "(k, s) \<in> set mo" by (rule map_of_SomeD)
      with vs have "valid_slice h s" by auto
      then obtain xs where xs: "slice_elems h s = Inr xs" by (auto dest: valid_sliceD)
      from mp4[of k] Some obtain s2 where s2: "map_of m' k = Some s2" "slice_elems h4 s2 = slice_elems h s"
        "s2 = NilSlice \<or> (\<exists>b n. s2 = Slice b 0 n \<and> length h + 2 \<le> b \<and> b < length h4)" by auto
      from s2(2) xs have "slice_elems h4 s2 = Inr xs" by simp
      from slice_elems_frame[OF this, of ?h5] fa have "slice_elems ?h5 s2 = Inr xs" by simp
      with s2 xs Some show ?thesis by auto
    qed
    have nu: "\<forall>k s2. map_of m' k = Some s2 \<longrightarrow> length ?h5 - 1 \<notin> set (slice_array s2)"
    proof (intro allI impI)
      fix k s2 assume a: "map_of m' k = Some s2"
      show "length ?h5 - 1 \<notin> set (slice_array s2)"
      proof (cases "map_of mo k")
        case None
        with mp4[of k] a show ?thesis by simp
      next
        case (Some s)
        with mp4[of k] a show ?thesis by auto
      qed
    qed
    have last: "?h5 ! (length ?h5 - 1) = URLObj uv" using l4 by (simp add: nth_append)
    have r5: "?h5 ! ?r2 = RequestObj (rv\<lparr>Header := Some ?hm, URL := Some (length ?h5 - 1)\<rparr>)"
      using l4 by simp
    have l5': "length h + 2 \<le> length ?h5" "length h + 3 \<le> length ?h5" using l4 by simp_all
    show ?thesis
      apply (rule exI[of _ rv], rule exI[of _ mo], rule exI[of _ ?h5], rule exI[of _ m'])
      apply (intro conjI)
              apply (rule rv)
             apply (rule mo)
            apply (rule cl)
           apply (rule l5'(1))
          apply (rule fr5)
         apply (rule hd5)
        apply (rule di)
       apply (intro allI, rule mp5)
      apply (simp only: Some option.case)
      apply (intro exI[of _ uv] conjI)
          apply (rule uv)
         apply (rule l5'(2))
        apply (rule last)
       apply (rule nu)
      apply (rule r5)
      done
  qed
qed

subsection \<open>Reading a request depends only on the objects it reaches\<close>

lemma get_frame:
  assumes "\<forall>x<length h. deref h2 x = deref h x"
  shows "get_Request h a = Inr rv \<Longrightarrow> get_Request h2 a = Inr rv"
    and "get_Header h a = Inr m \<Longrightarrow> get_Header h2 a = Inr m"
    and "get_Array h a = Inr xs \<Longrightarrow> get_Array h2 a = Inr xs"
    and "get_URL h a = Inr uv \<Longrightarrow> get_URL h2 a = Inr uv"
proof -
  have *: "deref h a = Some v \<Longrightarrow> deref h2 a = Some v" for v
    using assms by (cases "a < length h") (auto simp: deref_def)
  show "get_Request h a = Inr rv \<Longrightarrow> get_Request h2 a = Inr rv"
    using * by (auto simp: get_Request_def split: option.splits obj.splits)
  show "get_Header h a = Inr m \<Longrightarrow> get_Header h2 a = Inr m"
    using * by (auto simp: get_Header_def split: option.splits obj.splits)
  show "get_Array h a = Inr xs \<Longrightarrow> get_Array h2 a = Inr xs"
    using * by (auto simp: get_Array_def split: option.splits obj.splits)
  show "get_URL h a = Inr uv \<Longrightarrow> get_URL h2 a = Inr uv"
    using * by (auto simp: get_URL_def split: option.splits obj.splits)
qed

lemma slice_elems_deref_frame:
  assumes "\<forall>x<length h. deref h2 x = deref h x" "slice_elems h s = Inr xs"
  shows "slice_elems h2 s = Inr xs"
proof (cases s)
  case NilSlice
  then show ?thesis using assms by (simp add: slice_elems_def)
next
  case (Slice b off n)
  with assms(2) obtain ys where ys: "get_Array h b = Inr ys" "off + n \<le> length ys"
    "xs = take n (drop off ys)"
    by (auto simp: slice_elems_def split: sum.splits if_splits)
  from get_frame(3)[OF assms(1) ys(1)] ys Slice show ?thesis
    by (simp add: slice_elems_def)
qed

lemma views_frame:
  assumes v: "valid_request h a" and f: "\<forall>x<length h. deref h2 x = deref h x"
  shows "header_values h2 a k = header_values h a k" and "url_value h2 a = url_value h a"
proof -
  from v obtain rv where rv: "get_Request h a = Inr rv"
    by (auto simp: valid_request_def split: sum.splits)
  note rv2 = get_frame(1)[OF f rv]
  show "url_value h2 a = url_value h a"
  proof (cases "URL rv")
    case None
    then show ?thesis using rv rv2 by (simp add: url_value_def)
  next
    case (Some u)
    with v rv obtain uv where uv: "get_URL h u = Inr uv"
      by (cases "get_URL h u") (auto simp: valid_request_def)
    from get_frame(4)[OF f uv] uv Some rv rv2 show ?thesis by (simp add: url_value_def)
  qed
  show "header_values h2 a k = header_values h a k"
  proof (cases "Header rv")
    case None
    then show ?thesis using rv rv2 by (simp add: header_values_def)
  next
    case (Some ha)
    with v rv obtain m where m: "get_Header h ha = Inr m" and vs: "list_all (\<lambda>(k, s). valid_slice h s) m"
      by (cases "get_Header h ha") (auto simp: valid_request_def)
    note m2 = get_frame(2)[OF f m]
    show ?thesis
    proof (cases "map_of m k")
      case None
      then show ?thesis using rv rv2 Some m m2 by (simp add: header_values_def)
    next
      case (Some s)
      then have "(k, s) \<in> set m" by (rule map_of_SomeD)
      with vs have "valid_slice h s" by (auto simp: list_all_iff)
      then obtain xs where xs: "slice_elems h s = Inr xs" by (auto dest: valid_sliceD)
      from slice_elems_deref_frame[OF f xs] xs Some rv rv2 \<open>Header rv = Some ha\<close> m m2
      show ?thesis by (simp add: header_values_def)
    qed
  qed
qed

subsection \<open>The clone is a deep copy\<close>

text \<open>
  Claim C1. For every request \<open>r\<close> of a Go store, \<open>cloneRequest r\<close> returns a new request
  whose method, protocol version, context and body reference equal those of \<open>r\<close>; its
  header is a map that shows the same values under every key, and its URL is nil exactly
  when that of \<open>r\<close> is and shows the same URL value. The clone, its header map, the
  backing arrays of its header values and its URL object are all objects that did not exist
  before the call. Hence whatever is written afterwards to those objects (and to objects
  allocated later) leaves the header values and the URL of \<open>r\<close> as they were.
\<close>

theorem cloneRequest_deep_copy:
  assumes v: "valid_request h a"
  shows "\<exists>r2 h' rv rv2 hm.
      cloneRequest (Some a) h = Inr (r2, h')
    \<and> get_Request h a = Inr rv \<and> get_Request h' r2 = Inr rv2
    \<and> Method rv2 = Method rv \<and> Proto rv2 = Proto rv \<and> ProtoMajor rv2 = ProtoMajor rv
    \<and> ProtoMinor rv2 = ProtoMinor rv \<and> ctx rv2 = ctx rv \<and> Body rv2 = Body rv
    \<and> Header rv2 = Some hm
    \<and> (\<forall>k. header_values h' r2 k = header_values h a k)
    \<and> (URL rv2 = None \<longleftrightarrow> URL rv = None) \<and> url_value h' r2 = url_value h a
    \<and> (\<forall>x \<in> set (clone_objects h' r2). deref h x = None \<and> deref h' x \<noteq> None)
    \<and> (\<forall>h''. (\<forall>x. x \<notin> set (clone_objects h' r2) \<longrightarrow> deref h' x \<noteq> None \<longrightarrow> deref h'' x = deref h' x)
          \<longrightarrow> (\<forall>k. header_values h'' a k = header_values h a k) \<and> url_value h'' a = url_value h a)"
proof -
  from cloneRequest_spec[OF v] obtain rv mo h' m' where
    rv: "get_Request h a = Inr rv"
    and mo: "case Header rv of None \<Rightarrow> mo = [] | Some ha \<Rightarrow> get_Header h ha = Inr mo"
    and cl: "cloneRequest (Some a) h = Inr (length h, h')"
    and len: "length h + 2 \<le> length h'"
    and fr: "\<forall>x<length h. h' ! x = h ! x"
    and hd: "h' ! Suc (length h) = HeaderObj m'" and di: "distinct (map fst m')"
    and mp: "\<forall>k. case map_of mo k of
              None \<Rightarrow> map_of m' k = None
            | Some s \<Rightarrow> (\<exists>s2. map_of m' k = Some s2 \<and> slice_elems h' s2 = slice_elems h s
                 \<and> (s2 = NilSlice \<or> (\<exists>b n. s2 = Slice b 0 n \<and> length h + 2 \<le> b \<and> b < length h')))"
    and ur: "case URL rv of
           None \<Rightarrow> h' ! length h = RequestObj (rv\<lparr>Header := Some (Suc (length h))\<rparr>)
         | Some u \<Rightarrow> (\<exists>uv. get_URL h u = Inr uv \<and> length h + 3 \<le> length h'
               \<and> h' ! (length h' - 1) = URLObj uv
               \<and> (\<forall>k s2. map_of m' k = Some s2 \<longrightarrow> length h' - 1 \<notin> set (slice_array s2))
               \<and> h' ! length h =
                   RequestObj (rv\<lparr>Header := Some (Suc (length h)), URL := Some (length h' - 1)\<rparr>))"
    by blast
  let ?r2 = "length h"
  let ?hm = "Suc (length h)"
  define rv2 where "rv2 = (case URL rv of None \<Rightarrow> rv\<lparr>Header := Some ?hm\<rparr>
     | Some u \<Rightarrow> rv\<lparr>Header := Some ?hm, URL := Some (length h' - 1)\<rparr>)"
  have r2: "h' ! ?r2 = RequestObj rv2"
    using ur by (auto simp: rv2_def split: option.splits)
  have g2: "get_Request h' ?r2 = Inr rv2" using r2 len by (simp add: get_Request_def deref_def)
  have gh: "get_Header h' ?hm = Inr m'" using hd len by (simp add: get_Header_def deref_def)
  have sc: "Method rv2 = Method rv \<and> Proto rv2 = Proto rv \<and> ProtoMajor rv2 = ProtoMajor rv
    \<and> ProtoMinor rv2 = ProtoMinor rv \<and> ctx rv2 = ctx rv \<and> Body rv2 = Body rv
    \<and> Header rv2 = Some ?hm \<and> (URL rv2 = None \<longleftrightarrow> URL rv = None)"
    by (auto simp: rv2_def split: option.splits)
  have vs: "\<And>k s. map_of mo k = Some s \<Longrightarrow> \<exists>xs. slice_elems h s = Inr xs"
  proof -
    fix k s assume "map_of mo k = Some s"
    then have in_mo: "(k, s) \<in> set mo" by (rule map_of_SomeD)
    then obtain ha where ha: "Header rv = Some ha" using mo by (cases "Header rv") auto
    with mo have "get_Header h ha = Inr mo" by simp
    with v rv ha have "list_all (\<lambda>(k, s). valid_slice h s) mo" by (simp add: valid_request_def)
    with in_mo have "valid_slice h s" by (auto simp: list_all_iff)
    then show "\<exists>xs. slice_elems h s = Inr xs" by (rule valid_sliceD)
  qed
  have hv: "header_values h' ?r2 k = header_values h a k" for k
  proof (cases "map_of mo k")
    case None
    with mp have n: "map_of m' k = None" by (auto dest!: spec[where x=k])
    have "header_values h a k = None"
      using rv mo None by (auto simp: header_values_def split: option.splits)
    moreover have "header_values h' ?r2 k = None"
      using g2 sc gh n by (simp add: header_values_def)
    ultimately show ?thesis by simp
  next
    case (Some s)
    with mp obtain s2 where s2: "map_of m' k = Some s2" "slice_elems h' s2 = slice_elems h s"
      by (auto dest!: spec[where x=k])
    from vs[OF Some] obtain xs where xs: "slice_elems h s = Inr xs" by blast
    from Some obtain ha where ha: "Header rv = Some ha" using mo by (cases "Header rv") auto
    with mo have "get_Header h ha = Inr mo" by simp
    then have "header_values h a k = Some xs"
      using rv ha Some xs by (simp add: header_values_def)
    moreover have "header_values h' ?r2 k = Some xs"
      using g2 sc gh s2 xs by (simp add: header_values_def)
    ultimately show ?thesis by simp
  qed
  have uval: "url_value h' ?r2 = url_value h a"
  proof (cases "URL rv")
    case None
    then show ?thesis using rv g2 sc by (simp add: url_value_def)
  next
    case (Some u)
    with ur obtain uv where uv: "get_URL h u = Inr uv" "length h + 3 \<le> length h'"
      "h' ! (length h' - 1) = URLObj uv" by auto
    then have "get_URL h' (length h' - 1) = Inr uv" by (simp add: get_URL_def deref_def)
    moreover have "URL rv2 = Some (length h' - 1)" using Some by (simp add: rv2_def)
    ultimately show ?thesis using rv g2 uv(1) Some by (simp add: url_value_def)
  qed
  have ho: "set (header_objects h' ?r2) \<subseteq> {length h ..< length h'}"
  proof
    fix x assume "x \<in> set (header_objects h' ?r2)"
    then have "x = ?hm \<or> (\<exists>k s2. (k, s2) \<in> set m' \<and> x \<in> set (slice_array s2))"
      using g2 sc gh by (auto simp: header_objects_def)
    then show "x \<in> {length h ..< length h'}"
    proof
      assume "x = ?hm" then show ?thesis using len by simp
    next
      assume "\<exists>k s2. (k, s2) \<in> set m' \<and> x \<in> set (slice_array s2)"
      then obtain k s2 where ks: "(k, s2) \<in> set m'" "x \<in> set (slice_array s2)" by blast
      with di have m'k: "map_of m' k = Some s2" by simp
      show ?thesis
      proof (cases "map_of mo k")
        case None
        with mp m'k show ?thesis by (auto dest!: spec[where x=k])
      next
        case (Some s)
        with mp m'k have "s2 = NilSlice \<or> (\<exists>b n. s2 = Slice b 0 n \<and> length h + 2 \<le> b \<and> b < length h')"
          by (auto dest!: spec[where x=k])
        with ks(2) show ?thesis by auto
      qed
    qed
  qed
  have uo: "set (url_objects h' ?r2) \<subseteq> {length h ..< length h'}"
    using g2 ur by (auto simp: url_objects_def rv2_def split: option.splits)
  have co: "set (clone_objects h' ?r2) \<subseteq> {length h ..< length h'}"
    using ho uo len by (auto simp: clone_objects_def)
  have fresh: "\<forall>x \<in> set (clone_objects h' ?r2). deref h x = None \<and> deref h' x \<noteq> None"
    using co by (auto simp: deref_def)
  have frame: "(\<forall>k. header_values h'' a k = header_values h a k) \<and> url_value h'' a = url_value h a"
    if ag: "\<forall>x. x \<notin> set (clone_objects h' ?r2) \<longrightarrow> deref h' x \<noteq> None \<longrightarrow> deref h'' x = deref h' x"
    for h''
  proof -
    have "\<forall>x<length h. deref h'' x = deref h x"
    proof (intro allI impI)
      fix x assume x: "x < length h"
      then have "x \<notin> set (clone_objects h' ?r2)" using co by auto
      moreover have "deref h' x = Some (h ! x)" using x len fr by (simp add: deref_def)
      ultimately show "deref h'' x = deref h x" using ag x by (simp add: deref_def)
    qed
    from views_frame[OF v this] show ?thesis by simp
  qed
  show ?thesis
    apply (rule exI[of _ ?r2], rule exI[of _ h'], rule exI[of _ rv], rule exI[of _ rv2], rule exI[of _ ?hm])
    using cl rv g2 sc hv uval fresh frame by simp
qed

subsection \<open>Absent header and URL\<close>

text \<open>
  Claim C10. On every request of a Go store \<open>cloneRequest\<close> returns a clone (it does not
  panic). When the URL of the request is nil, so is the URL of the clone; when the header
  of the request is nil, the header of the clone is a new, empty, non-nil map.
\<close>

theorem cloneRequest_absent_fields:
  assumes v: "valid_request h a"
  shows "\<exists>r2 h' rv rv2. cloneRequest (Some a) h = Inr (r2, h')
        \<and> get_Request h a = Inr rv \<and> get_Request h' r2 = Inr rv2
        \<and> (URL rv = None \<longrightarrow> URL rv2 = None)
        \<and> (Header rv = None \<longrightarrow>
             (\<exists>hm. Header rv2 = Some hm \<and> deref h hm = None \<and> get_Header h' hm = Inr []))"
proof -
  from cloneRequest_spec[OF v] obtain rv mo h' m' where
    rv: "get_Request h a = Inr rv"
    and mo: "case Header rv of None \<Rightarrow> mo = [] | Some ha \<Rightarrow> get_Header h ha = Inr mo"
    and cl: "cloneRequest (Some a) h = Inr (length h, h')"
    and len: "length h + 2 \<le> length h'"
    and hd: "h' ! Suc (length h) = HeaderObj m'" and di: "distinct (map fst m')"
    and mp: "\<forall>k. case map_of mo k of
              None \<Rightarrow> map_of m' k = None
            | Some s \<Rightarrow> (\<exists>s2. map_of m' k = Some s2 \<and> slice_elems h' s2 = slice_elems h s
                 \<and> (s2 = NilSlice \<or> (\<exists>b n. s2 = Slice b 0 n \<and> length h + 2 \<le> b \<and> b < length h')))"
    and ur: "case URL rv of
           None \<Rightarrow> h' ! length h = RequestObj (rv\<lparr>Header := Some (Suc (length h))\<rparr>)
         | Some u \<Rightarrow> (\<exists>uv. get_URL h u = Inr uv \<and> length h + 3 \<le> length h'
               \<and> h' ! (length h' - 1) = URLObj uv
               \<and> (\<forall>k s2. map_of m' k = Some s2 \<longrightarrow> length h' - 1 \<notin> set (slice_array s2))
               \<and> h' ! length h =
                   RequestObj (rv\<lparr>Header := Some (Suc (length h)), URL := Some (length h' - 1)\<rparr>))"
    by blast
  let ?hm = "Suc (length h)"
  define rv2 where "rv2 = (case URL rv of None \<Rightarrow> rv\<lparr>Header := Some ?hm\<rparr>
     | Some u \<Rightarrow> rv\<lparr>Header := Some ?hm, URL := Some (length h' - 1)\<rparr>)"
  have r2: "h' ! length h = RequestObj rv2"
    using ur by (auto simp: rv2_def split: option.splits)
  have g2: "get_Request h' (length h) = Inr rv2" using r2 len by (simp add: get_Request_def deref_def)
  have gh: "get_Header h' ?hm = Inr m'" using hd len by (simp add: get_Header_def deref_def)
  have u: "URL rv = None \<longrightarrow> URL rv2 = None" by (simp add: rv2_def)
  have hdr: "Header rv2 = Some ?hm" by (simp add: rv2_def split: option.splits)
  have e: "m' = []" if "Header rv = None"
  proof -
    from that mo have "mo = []" by simp
    with mp have "\<forall>k. map_of m' k = None" by simp
    then show ?thesis by (cases m') (auto simp: fun_upd_def split: if_splits)
  qed
  have hh: "Header rv = None \<longrightarrow> (\<exists>hm. Header rv2 = Some hm \<and> deref h hm = None \<and> get_Header h' hm = Inr [])"
    using hdr gh e by (auto simp: deref_def)
  show ?thesis
    apply (rule exI[of _ "length h"], rule exI[of _ h'], rule exI[of _ rv], rule exI[of _ rv2])
    using cl rv g2 u hh by simp
qed


theorem cloneRequest_absent_fields_witness:
  "valid_request [RequestObj req0] 0
   \<and> cloneRequest (Some 0) [RequestObj req0]
       = Inr (1, [RequestObj req0, RequestObj (req0\<lparr>Header := Some 2\<rparr>), HeaderObj []])"
proof -
  have v: "valid_request [RequestObj req0] 0"
    by (simp add: valid_request_def get_Request_def deref_def req0_def)
  have "cloneRequest (Some 0) [RequestObj req0]
       = Inr (1, [RequestObj req0, RequestObj (req0\<lparr>Header := Some 2\<rparr>), HeaderObj []])"
    by (simp add: cloneRequest_def get_Request_def deref_def alloc_def range_Header_def req0_def)
  with v cloneRequest_absent_fields[OF v] show ?thesis by simp
qed

lemma valid_heap1: "valid_request heap1 0"
  by (simp add: valid_request_def valid_slice_def slice_elems_def get_Request_def get_Header_def
      get_Array_def get_URL_def deref_def heap1_def req1_def)

lemma clone_heap1: "cloneRequest (Some 0) heap1 = Inr (4, heap1_cloned)"
  by (simp add: cloneRequest_def get_Request_def get_Header_def get_Array_def get_URL_def
      deref_def alloc_def range_Header_def range_entries_def append_nil_def slice_elems_def
      heap1_def heap1_cloned_def req1_def)

lemma set_intercepted_clone: "set_intercepted (Some 4) heap1_cloned x = (None, heap1_sent, x)"
  by (simp add: set_intercepted_def heap1_cloned_def heap1_sent_def get_Request_def get_Header_def
      deref_def alloc_def)

lemma clone_objects_heap1: "clone_objects heap1_cloned 4 = [4, 5, 6, 7]"
  by (simp add: clone_objects_def header_objects_def url_objects_def heap1_cloned_def
      get_Request_def get_Header_def deref_def)

lemma sent_agrees:
  "\<forall>x. x \<notin> set (clone_objects heap1_cloned 4) \<longrightarrow> deref heap1_cloned x \<noteq> None
        \<longrightarrow> deref heap1_sent x = deref heap1_cloned x"
proof (intro allI impI)
  fix x assume a: "x \<notin> set (clone_objects heap1_cloned 4)" and b: "deref heap1_cloned x \<noteq> None"
  from b have "x < 8" by (simp add: deref_def heap1_cloned_def split: if_splits)
  with a have "x = 0 \<or> x = 1 \<or> x = 2 \<or> x = 3" by (auto simp: clone_objects_heap1)
  then show "deref heap1_sent x = deref heap1_cloned x"
    by (auto simp: deref_def heap1_sent_def heap1_cloned_def)
qed

theorem cloneRequest_deep_copy_witness:
  "valid_request heap1 0
   \<and> cloneRequest (Some 0) heap1 = Inr (4, heap1_cloned)
   \<and> header_values heap1_cloned 4 ''Accept'' = Some [''text/html'', ''text/plain'']
   \<and> url_value heap1_cloned 4 = Some url1
   \<and> set_intercepted (Some 4) heap1_cloned [] = (None, heap1_sent, [])
   \<and> header_values heap1_sent 4 ''Intercepted'' = Some [''true'']
   \<and> header_values heap1_sent 0 ''Intercepted'' = None
   \<and> header_values heap1_sent 0 ''Accept'' = Some [''text/html'', ''text/plain'']
   \<and> url_value heap1_sent 0 = Some url1"
proof -
  have v: "valid_request heap1 0" by (rule valid_heap1)
  have a: "header_values heap1 0 ''Accept'' = Some [''text/html'', ''text/plain'']"
    by (simp add: header_values_def slice_elems_def get_Request_def get_Header_def
      get_Array_def deref_def heap1_def req1_def)
  have i: "header_values heap1 0 ''Intercepted'' = None"
    by (simp add: header_values_def slice_elems_def get_Request_def get_Header_def
      get_Array_def deref_def heap1_def req1_def)
  have u: "url_value heap1 0 = Some url1"
    by (simp add: url_value_def get_Request_def get_URL_def deref_def heap1_def req1_def)
  have s: "header_values heap1_sent 4 ''Intercepted'' = Some [''true'']"
    by (simp add: header_values_def slice_elems_def get_Request_def get_Header_def
      get_Array_def deref_def heap1_sent_def)
  from cloneRequest_deep_copy[OF v] obtain r2 h' where
    c: "cloneRequest (Some 0) heap1 = Inr (r2, h')"
    and hv: "\<forall>k. header_values h' r2 k = header_values heap1 0 k"
    and uv: "url_value h' r2 = url_value heap1 0"
    and fr: "\<forall>h''. (\<forall>x. x \<notin> set (clone_objects h' r2) \<longrightarrow> deref h' x \<noteq> None \<longrightarrow> deref h'' x = deref h' x)
          \<longrightarrow> (\<forall>k. header_values h'' 0 k = header_values heap1 0 k) \<and> url_value h'' 0 = url_value heap1 0"
    by blast
  from c have e: "r2 = 4" "h' = heap1_cloned" by (simp_all add: clone_heap1)
  from fr sent_agrees have "(\<forall>k. header_values heap1_sent 0 k = header_values heap1 0 k)
      \<and> url_value heap1_sent 0 = url_value heap1 0"
    unfolding e by blast
  then show ?thesis using v clone_heap1 hv uv a i u s set_intercepted_clone unfolding e by simp
qed

section \<open>Properties of onEOFReader\<close>

lemma runFunc_None: "fn r = None \<Longrightarrow> runFunc r s = (r, s)"
  by (simp add: runFunc_def)

lemma runFunc_Some: "fn r = Some f \<Longrightarrow> runFunc r s = (r\<lparr>fn := None\<rparr>, f s)"
  by (simp add: runFunc_def)

lemma use_body_counter_None:
  assumes "fn r = None" "rc r = beside_counter inner"
  shows "\<exists>rs r' s'. use_body cs r (c, s) = (rs, r', (c, s')) \<and> fn r' = None"
  using assms
proof (induction cs arbitrary: r s)
  case Nil
  then show ?case by simp
next
  case (Cons x cs)
  show ?case
  proof (cases x)
    case (DoRead p)
    obtain n err s1 where i: "rc_Read inner p s = ((n, err), s1)"
      by (metis prod.exhaust)
    have "onEOFReader_Read r p (c, s) = ((n, err), r, (c, s1))"
      using Cons.prems i by (simp add: onEOFReader_Read_def beside_counter_def runFunc_None)
    moreover from Cons.IH[OF Cons.prems, of s1] obtain rs r' s' where
      "use_body cs r (c, s1) = (rs, r', (c, s'))" "fn r' = None" by blast
    ultimately show ?thesis using DoRead by simp
  next
    case DoClose
    obtain err s1 where i: "rc_Close inner s = (err, s1)"
      by (metis prod.exhaust)
    have "onEOFReader_Close r (c, s) = (err, r, (c, s1))"
      using Cons.prems i by (simp add: onEOFReader_Close_def beside_counter_def runFunc_None)
    moreover from Cons.IH[OF Cons.prems, of s1] obtain rs r' s' where
      "use_body cs r (c, s1) = (rs, r', (c, s'))" "fn r' = None" by blast
    ultimately show ?thesis using DoClose by simp
  qed
qed

lemma use_body_counter_Some:
  assumes "fn r = Some (counting f)" "rc r = beside_counter inner"
  shows "\<exists>rs r' s'. use_body cs r (c, s) = (rs, r', ((if list_ex finishes rs then Suc c else c), s'))
           \<and> (fn r' = None \<longleftrightarrow> list_ex finishes rs)"
  using assms
proof (induction cs arbitrary: r s)
  case Nil
  then show ?case by simp
next
  case (Cons x cs)
  let ?r0 = "r\<lparr>fn := None\<rparr>"
  have r0: "fn ?r0 = None" "rc ?r0 = beside_counter inner" using Cons.prems by simp_all
  show ?case
  proof (cases x)
    case (DoRead p)
    obtain n err s1 where i: "rc_Read inner p s = ((n, err), s1)"
      by (metis prod.exhaust)
    show ?thesis
    proof (cases "err = Some EOF")
      case True
      have "onEOFReader_Read r p (c, s) = ((n, err), ?r0, (Suc c, f s1))"
        using Cons.prems i True
        by (simp add: onEOFReader_Read_def beside_counter_def runFunc_Some counting_def)
      moreover from use_body_counter_None[OF r0, of cs "Suc c" "f s1"] obtain rs r' s' where
        "use_body cs ?r0 (Suc c, f s1) = (rs, r', (Suc c, s'))" "fn r' = None" by blast
      ultimately show ?thesis using DoRead True by simp
    next
      case False
      have "onEOFReader_Read r p (c, s) = ((n, err), r, (c, s1))"
        using Cons.prems i False by (simp add: onEOFReader_Read_def beside_counter_def)
      moreover from Cons.IH[OF Cons.prems, of s1] obtain rs r' s' where
        "use_body cs r (c, s1) = (rs, r', ((if list_ex finishes rs then Suc c else c), s'))"
        "fn r' = None \<longleftrightarrow> list_ex finishes rs" by iprover
      ultimately show ?thesis using DoRead False by simp
    qed
  next
    case DoClose
    obtain err s1 where i: "rc_Close inner s = (err, s1)"
      by (metis prod.exhaust)
    have "onEOFReader_Close r (c, s) = (err, ?r0, (Suc c, f s1))"
      using Cons.prems i
      by (simp add: onEOFReader_Close_def beside_counter_def runFunc_Some counting_def)
    moreover from use_body_counter_None[OF r0, of cs "Suc c" "f s1"] obtain rs r' s' where
      "use_body cs ?r0 (Suc c, f s1) = (rs, r', (Suc c, s'))" "fn r' = None" by blast
    ultimately show ?thesis using DoClose by simp
  qed
qed

text \<open>
  Claim C5. Take any inner stream, any callback and any sequence of \<open>Read\<close> and \<open>Close\<close>
  calls on the tracked body, with the callback counting its own runs. After the sequence
  the callback has run at most once: once if some call finished the body (a \<open>Read\<close> that
  reached end of stream, or a \<open>Close\<close>), however many such calls there were, and not at all
  otherwise; the reader's \<open>fn\<close> is nil exactly when it has run. \<open>runFunc\<close> always leaves
  \<open>fn\<close> nil.
\<close>

theorem cleanup_at_most_once:
  "(case use_body cs \<lparr>rc = beside_counter inner, fn = Some (counting f)\<rparr> (0, s) of
      (rs, r', (c', s')) \<Rightarrow>
        c' \<le> 1 \<and> c' = (if list_ex finishes rs then 1 else 0) \<and> (fn r' = None) = list_ex finishes rs)
   \<and> fn (fst (runFunc r t)) = None"
proof -
  let ?r1 = "\<lparr>rc = beside_counter inner, fn = Some (counting f)\<rparr>"
  have "fn ?r1 = Some (counting f)" "rc ?r1 = beside_counter inner" by simp_all
  from use_body_counter_Some[OF this, of cs 0 s] have a: "case use_body cs ?r1 (0, s) of
      (rs, r', (c', s')) \<Rightarrow>
        c' \<le> 1 \<and> c' = (if list_ex finishes rs then 1 else 0) \<and> (fn r' = None) = list_ex finishes rs"
    by auto
  have b: "fn (fst (runFunc r t)) = None"
    by (cases "fn r") (simp_all add: runFunc_def)
  show ?thesis using a b by blast
qed

text \<open>
  Claim C6. \<open>Read\<close> returns what the inner stream's \<open>Read\<close> returned; when that is end
  of stream, the callback (if still set) runs on the state the inner \<open>Read\<close> left, before
  \<open>Read\<close> returns. \<open>Close\<close> returns what the inner stream's \<open>Close\<close> returned, and the
  callback (if still set) runs after the inner \<open>Close\<close>. The inner stream stays the same.
\<close>

theorem onEOFReader_delegates:
  "fst (onEOFReader_Read r p s) = fst (rc_Read (rc r) p s)
   \<and> snd (snd (onEOFReader_Read r p s)) =
       (let ((n, err), s1) = rc_Read (rc r) p s
        in if err = Some EOF then (case fn r of None \<Rightarrow> s1 | Some f \<Rightarrow> f s1) else s1)
   \<and> fst (onEOFReader_Close r s) = fst (rc_Close (rc r) s)
   \<and> snd (snd (onEOFReader_Close r s)) =
       (let (err, s1) = rc_Close (rc r) s in case fn r of None \<Rightarrow> s1 | Some f \<Rightarrow> f s1)
   \<and> rc (fst (snd (onEOFReader_Read r p s))) = rc r
   \<and> rc (fst (snd (onEOFReader_Close r s))) = rc r"
  by (auto simp: onEOFReader_Read_def onEOFReader_Close_def runFunc_def Let_def
      split: prod.splits option.splits)

section \<open>Properties of RoundTrip\<close>

subsection \<open>The map and the two ways through RoundTrip\<close>

lemma entries_setModReq:
  "entries (setModReq orig None w) = (entries w)(orig := None)"
  "entries (setModReq orig (Some m) w) = (entries w)(orig \<mapsto> Some m)"
  by (simp_all add: entries_def setModReq_def split: option.splits)

lemma setModReq_None:
  "setModReq orig None w = w\<lparr>modReq := Some ((entries w)(orig := None)), hist := hist w @ [MapDelete orig]\<rparr>"
  by (simp add: entries_def setModReq_def)

lemma setModReq_Some:
  "setModReq orig (Some m) w = w\<lparr>modReq := Some ((entries w)(orig \<mapsto> Some m)), hist := hist w @ [MapStore orig (Some m)]\<rparr>"
  by (simp add: entries_def setModReq_def)

lemma RoundTrip_body_rejected:
  assumes "cloneRequest (Some a) (store w) = Inr (r2, h1)"
    and "requestModifier k = Some Intercept"
    and "Intercept (Some r2) h1 (ext w) = (Some e, h2, x2)"
  shows "RoundTrip_body k env a w =
           (Return (None, Some (Wrap e ''error while intercepting request'')), False,
            w\<lparr>store := h2, ext := x2, hist := hist w @ [CallIntercept (Some r2)]\<rparr>)"
  using assms by (simp add: RoundTrip_body_def)

lemma RoundTrip_body_sent:
  assumes "cloneRequest (Some a) (store w) = Inr (r2, h1)"
    and "requestModifier k = Some Intercept"
    and "Intercept (Some r2) h1 (ext w) = (None, h2, x2)"
    and "rt_RoundTrip (base k env) (Some r2) h2 x2 = ((res, err), h5, x5)"
  shows "RoundTrip_body k env a w =
           (let w5 = w\<lparr>store := h5, ext := x5,
                       modReq := Some ((entries w)(Some a \<mapsto> Some r2)),
                       hist := hist w @ [CallIntercept (Some r2), MapStore (Some a) (Some r2),
                                         CallRoundTrip (Some r2)]\<rparr>
            in case err of
                 Some e \<Rightarrow>
                   (Return (None, Some e), True,
                    w5\<lparr>modReq := Some ((entries w)(Some a := None)),
                       hist := hist w5 @ [MapDelete (Some a)]\<rparr>)
               | None \<Rightarrow>
                   (case res of
                      None \<Rightarrow> (Panic NilDereference, True, w5)
                    | Some resp \<Rightarrow>
                        (Return (Some \<lparr>StatusCode = StatusCode resp,
                                       res_Body = \<lparr>rc = stream_rc env (res_Body resp),
                                                   fn = Some (setModReq (Some a) None)\<rparr>\<rparr>, None),
                         True, w5)))"
  using assms
  by (simp add: RoundTrip_body_def setModReq_Some setModReq_None entries_def Let_def
      split: option.splits)






lemma RoundTrip_rejected:
  assumes A1: "get_Request (store w) a = Inr rv"
    and A2: "cloneRequest (Some a) (store w) = Inr (r2, h1)"
    and A3: "requestModifier k = Some Intercept"
    and A4: "Intercept (Some r2) h1 (ext w) = (Some e, h2, x2)"
  shows "RoundTrip k env (Some a) w =
           (let out = Return (None, Some (Wrap e ''error while intercepting request''));
                w2 = w\<lparr>store := h2, ext := x2, hist := hist w @ [CallIntercept (Some r2)]\<rparr>
            in if Body rv \<noteq> None then close_req_Body env a out w2 else (out, w2))"
  using A1 RoundTrip_body_rejected[OF A2 A3 A4, of env]
  by (simp add: RoundTrip_def)

lemma RoundTrip_sent:
  assumes A1: "get_Request (store w) a = Inr rv"
    and A2: "cloneRequest (Some a) (store w) = Inr (r2, h1)"
    and A3: "requestModifier k = Some Intercept"
    and A4: "Intercept (Some r2) h1 (ext w) = (None, h2, x2)"
    and A5: "rt_RoundTrip (base k env) (Some r2) h2 x2 = ((res, err), h5, x5)"
  shows "RoundTrip k env (Some a) w =
           (let w5 = w\<lparr>store := h5, ext := x5,
                       modReq := Some ((entries w)(Some a \<mapsto> Some r2)),
                       hist := hist w @ [CallIntercept (Some r2), MapStore (Some a) (Some r2),
                                         CallRoundTrip (Some r2)]\<rparr>
            in case err of
                 Some e \<Rightarrow>
                   (Return (None, Some e),
                    w5\<lparr>modReq := Some ((entries w)(Some a := None)),
                       hist := hist w5 @ [MapDelete (Some a)]\<rparr>)
               | None \<Rightarrow>
                   (case res of
                      None \<Rightarrow> (Panic NilDereference, w5)
                    | Some resp \<Rightarrow>
                        (Return (Some \<lparr>StatusCode = StatusCode resp,
                                       res_Body = \<lparr>rc = stream_rc env (res_Body resp),
                                                   fn = Some (setModReq (Some a) None)\<rparr>\<rparr>, None),
                         w5)))"
  using A1 RoundTrip_body_sent[OF A2 A3 A4 A5]
  by (simp add: RoundTrip_def Let_def split: option.splits)

subsection \<open>The example world\<close>

lemma world1_request: "get_Request (store world1) 0 = Inr req1"
  by (simp add: world1_def heap1_def get_Request_def deref_def)

lemma world1_clone: "cloneRequest (Some 0) (store world1) = Inr (4, heap1_cloned)"
  by (simp add: world1_def clone_heap1)

lemma cloned_request: "get_Request heap1_cloned 0 = Inr req1"
  by (simp add: heap1_cloned_def get_Request_def deref_def)

lemma cloned_clone: "get_Request heap1_cloned 4 = Inr (req1\<lparr>Header := Some 5, URL := Some 7\<rparr>)"
  by (simp add: heap1_cloned_def get_Request_def deref_def)

lemma sent_request: "get_Request heap1_sent 0 = Inr req1"
  by (simp add: heap1_sent_def get_Request_def deref_def)

lemma sent_clone: "get_Request heap1_sent 4 = Inr (req1\<lparr>Header := Some 5, URL := Some 7\<rparr>)"
  by (simp add: heap1_sent_def get_Request_def deref_def)

lemma base_refused: "base k_refused env1 = refusing_transport"
  by (simp add: k_refused_def NewRequestInterceptor_def base_def)

lemma base_plain: "base k_plain env1 = plain_transport"
  by (simp add: k_plain_def NewRequestInterceptor_def base_def)

lemma base_cancelling: "base k_cancelling env1 = cancelling_transport"
  by (simp add: k_cancelling_def NewRequestInterceptor_def base_def env1_def)

lemma in_flight_plain:
  "in_flight k_plain = world1\<lparr>store := heap1_sent, ext := [70],
       modReq := Some [Some 0 \<mapsto> Some 4],
       hist := [CallIntercept (Some 4), MapStore (Some 0) (Some 4), CallRoundTrip (Some 4)]\<rparr>"
proof -
  have h3: "requestModifier k_plain = Some set_intercepted"
    by (simp add: k_plain_def NewRequestInterceptor_def)
  have h4: "set_intercepted (Some 4) heap1_cloned (ext world1) = (None, heap1_sent, [])"
    by (simp add: set_intercepted_clone world1_def)
  have h5: "rt_RoundTrip (base k_plain env1) (Some 4) heap1_sent []
        = ((Some \<lparr>StatusCode = 200, res_Body = 80\<rparr>, None), heap1_sent, [70])"
    by (simp add: base_plain plain_transport_def closes_req_Body_def sent_clone req1_def)
  show ?thesis
    unfolding in_flight_def
    by (simp add: RoundTrip_sent[OF world1_request world1_clone h3 h4 h5] entries_def,
        simp add: world1_def)
qed

lemma in_flight_cancelling:
  "in_flight k_cancelling = world1\<lparr>store := heap1_sent, ext := [70],
       modReq := Some [Some 0 \<mapsto> Some 4],
       hist := [CallIntercept (Some 4), MapStore (Some 0) (Some 4), CallRoundTrip (Some 4)]\<rparr>"
proof -
  have h3: "requestModifier k_cancelling = Some set_intercepted"
    by (simp add: k_cancelling_def NewRequestInterceptor_def)
  have h4: "set_intercepted (Some 4) heap1_cloned (ext world1) = (None, heap1_sent, [])"
    by (simp add: set_intercepted_clone world1_def)
  have h5: "rt_RoundTrip (base k_cancelling env1) (Some 4) heap1_sent []
        = ((Some \<lparr>StatusCode = 200, res_Body = 80\<rparr>, None), heap1_sent, [70])"
    by (simp add: base_cancelling cancelling_transport_def closes_req_Body_def sent_clone req1_def)
  show ?thesis
    unfolding in_flight_def
    by (simp add: RoundTrip_sent[OF world1_request world1_clone h3 h4 h5] entries_def,
        simp add: world1_def)
qed

subsection \<open>The Modifier fails\<close>

text \<open>
  Claim C3. Let the Modifier's \<open>Intercept\<close> return an error \<open>e\<close> on the clone. Then
  \<open>RoundTrip\<close> leaves the tracking map as it was, and the only calls it makes are
  \<open>Intercept\<close> and, for a request with a body, the closing of that body: the transport is
  not called, and the result is the same whatever the transport is. It returns a nil
  response and \<open>e\<close> wrapped with the message \<^verbatim>\<open>error while intercepting request\<close>. (The
  one other outcome is a panic of the deferred \<^verbatim>\<open>req.Body.Close()\<close>, which needs a Modifier
  that reached the caller's request and set its body to nil.)
\<close>

theorem intercept_failure:
  assumes A1: "get_Request (store w) a = Inr rv"
    and A2: "cloneRequest (Some a) (store w) = Inr (r2, h1)"
    and A3: "requestModifier k = Some Intercept"
    and A4: "Intercept (Some r2) h1 (ext w) = (Some e, h2, x2)"
  shows "(case RoundTrip k env (Some a) w of (out, w') \<Rightarrow>
            modReq w' = modReq w
          \<and> (hist w' = hist w @ [CallIntercept (Some r2)]
               \<or> (\<exists>b. hist w' = hist w @ [CallIntercept (Some r2), CallBodyClose b]))
          \<and> (out = Return (None, Some (Wrap e ''error while intercepting request''))
               \<or> (\<exists>f. out = Panic f))
          \<and> (Body rv = None \<or> (\<exists>rv' b. get_Request h2 a = Inr rv' \<and> Body rv' = Some b)
               \<longrightarrow> out = Return (None, Some (Wrap e ''error while intercepting request''))))
       \<and> (\<forall>t env'. stream_Close env' = stream_Close env
             \<longrightarrow> RoundTrip (k\<lparr>Base := t\<rparr>) env' (Some a) w = RoundTrip k env (Some a) w)"
proof -
  have k': "requestModifier (k\<lparr>Base := t\<rparr>) = Some Intercept" for t using A3 by simp
  have ind: "RoundTrip (k\<lparr>Base := t\<rparr>) env' (Some a) w = RoundTrip k env (Some a) w"
    if "stream_Close env' = stream_Close env" for t env'
  proof -
    have "close_req_Body env' = close_req_Body env"
      using that by (intro ext) (simp add: close_req_Body_def split: sum.splits option.splits)
    then show ?thesis
      by (simp add: RoundTrip_rejected[OF A1 A2 k' A4] RoundTrip_rejected[OF A1 A2 A3 A4] Let_def)
  qed
  have main: "case RoundTrip k env (Some a) w of (out, w') \<Rightarrow>
            modReq w' = modReq w
          \<and> (hist w' = hist w @ [CallIntercept (Some r2)]
               \<or> (\<exists>b. hist w' = hist w @ [CallIntercept (Some r2), CallBodyClose b]))
          \<and> (out = Return (None, Some (Wrap e ''error while intercepting request''))
               \<or> (\<exists>f. out = Panic f))
          \<and> (Body rv = None \<or> (\<exists>rv' b. get_Request h2 a = Inr rv' \<and> Body rv' = Some b)
               \<longrightarrow> out = Return (None, Some (Wrap e ''error while intercepting request'')))"
    by (auto simp: RoundTrip_rejected[OF A1 A2 A3 A4] close_req_Body_def Let_def
        split: sum.splits option.splits prod.splits)
  show ?thesis using main ind by blast
qed

theorem intercept_failure_witness:
  "get_Request (store world1) 0 = Inr req1
   \<and> cloneRequest (Some 0) (store world1) = Inr (4, heap1_cloned)
   \<and> requestModifier k_reject = Some reject
   \<and> reject (Some 4) heap1_cloned (ext world1) = (Some (Failure 1), heap1_cloned, [])
   \<and> fst (RoundTrip k_reject env1 (Some 0) world1)
       = Return (None, Some (Wrap (Failure 1) ''error while intercepting request''))
   \<and> modReq (snd (RoundTrip k_reject env1 (Some 0) world1)) = None"
proof -
  have h3: "requestModifier k_reject = Some reject"
    by (simp add: k_reject_def NewRequestInterceptor_def)
  have h4: "reject (Some 4) heap1_cloned (ext world1) = (Some (Failure 1), heap1_cloned, [])"
    by (simp add: reject_def world1_def)
  have b: "Body req1 = None \<or> (\<exists>rv' b. get_Request heap1_cloned 0 = Inr rv' \<and> Body rv' = Some b)"
    by (simp add: cloned_request req1_def)
  have m: "modReq world1 = None" by (simp add: world1_def)
  from intercept_failure[OF world1_request world1_clone h3 h4, of env1] b m
  have "fst (RoundTrip k_reject env1 (Some 0) world1)
       = Return (None, Some (Wrap (Failure 1) ''error while intercepting request''))
   \<and> modReq (snd (RoundTrip k_reject env1 (Some 0) world1)) = None"
    by (cases "RoundTrip k_reject env1 (Some 0) world1") auto
  then show ?thesis using world1_request world1_clone h3 h4 by simp
qed

subsection \<open>The transport fails\<close>

text \<open>
  Claim C4. Let the Modifier succeed and the transport's \<open>RoundTrip\<close> return an error
  \<open>e\<close>. Then \<open>RoundTrip\<close> returns a nil response and \<open>e\<close> itself, not wrapped, and the
  tracking map has no entry for the request: the entry stored before the send has been
  deleted, and the other entries are as before.
\<close>

theorem transport_failure:
  assumes A1: "get_Request (store w) a = Inr rv"
    and A2: "cloneRequest (Some a) (store w) = Inr (r2, h1)"
    and A3: "requestModifier k = Some Intercept"
    and A4: "Intercept (Some r2) h1 (ext w) = (None, h2, x2)"
    and A5: "rt_RoundTrip (base k env) (Some r2) h2 x2 = ((res, Some e), h5, x5)"
  shows "case RoundTrip k env (Some a) w of (out, w') \<Rightarrow>
            out = Return (None, Some e)
          \<and> entries w' (Some a) = None
          \<and> entries w' = (entries w)(Some a := None)
          \<and> hist w' = hist w @ [CallIntercept (Some r2), MapStore (Some a) (Some r2),
                                 CallRoundTrip (Some r2), MapDelete (Some a)]"
  by (simp add: RoundTrip_sent[OF A1 A2 A3 A4 A5] entries_def)

theorem transport_failure_witness:
  "get_Request (store world1) 0 = Inr req1
   \<and> cloneRequest (Some 0) (store world1) = Inr (4, heap1_cloned)
   \<and> requestModifier k_refused = Some set_intercepted
   \<and> set_intercepted (Some 4) heap1_cloned (ext world1) = (None, heap1_sent, [])
   \<and> rt_RoundTrip (base k_refused env1) (Some 4) heap1_sent []
        = ((None, Some (Failure 2)), heap1_sent, [70])
   \<and> fst (RoundTrip k_refused env1 (Some 0) world1) = Return (None, Some (Failure 2))
   \<and> entries (snd (RoundTrip k_refused env1 (Some 0) world1)) (Some 0) = None"
proof -
  have h3: "requestModifier k_refused = Some set_intercepted"
    by (simp add: k_refused_def NewRequestInterceptor_def)
  have h4: "set_intercepted (Some 4) heap1_cloned (ext world1) = (None, heap1_sent, [])"
    by (simp add: set_intercepted_clone world1_def)
  have h5: "rt_RoundTrip (base k_refused env1) (Some 4) heap1_sent []
        = ((None, Some (Failure 2)), heap1_sent, [70])"
    by (simp add: base_refused refusing_transport_def closes_req_Body_def sent_clone req1_def)
  from transport_failure[OF world1_request world1_clone h3 h4 h5]
  have "fst (RoundTrip k_refused env1 (Some 0) world1) = Return (None, Some (Failure 2))
   \<and> entries (snd (RoundTrip k_refused env1 (Some 0) world1)) (Some 0) = None"
    by (cases "RoundTrip k_refused env1 (Some 0) world1") simp
  then show ?thesis using world1_request world1_clone h3 h4 h5 by simp
qed

subsection \<open>The life of a tracking entry\<close>



subsection \<open>Who closes the request body\<close>





section \<open>Properties of CancelRequest\<close>

text \<open>
  Claim C7, as the code has it. If the transport has no \<open>CancelRequest\<close> method, the call
  changes nothing: the map keeps its entry for the request. If it has one, the entry for
  the request is read and deleted, and the transport's \<open>CancelRequest\<close> is called with
  what was read: the modified request if there was an entry, nil if there was none.
\<close>

theorem CancelRequest_guarded:
  "(rt_CancelRequest (base k env) = None \<longrightarrow> CancelRequest k env req w = w)
   \<and> (\<forall>cancel. rt_CancelRequest (base k env) = Some cancel \<longrightarrow>
         entries (CancelRequest k env req w) = (entries w)(req := None)
       \<and> hist (CancelRequest k env req w)
           = hist w @ [MapLoad req, MapDelete req,
                       CallCancelRequest (case entries w req of None \<Rightarrow> None | Some m \<Rightarrow> m)]
       \<and> (store (CancelRequest k env req w), ext (CancelRequest k env req w))
           = cancel (case entries w req of None \<Rightarrow> None | Some m \<Rightarrow> m) (store w) (ext w))"
  by (auto simp: CancelRequest_def entries_def Let_def split: option.splits prod.splits)

theorem CancelRequest_guarded_witness:
  "rt_CancelRequest (base k_cancelling env1) = rt_CancelRequest cancelling_transport
   \<and> entries (in_flight k_cancelling) (Some 0) = Some (Some 4)
   \<and> entries (CancelRequest k_cancelling env1 (Some 0) (in_flight k_cancelling)) = Map.empty
   \<and> hist (CancelRequest k_cancelling env1 (Some 0) (in_flight k_cancelling))
       = hist (in_flight k_cancelling) @ [MapLoad (Some 0), MapDelete (Some 0), CallCancelRequest (Some 4)]"
proof -
  have c: "rt_CancelRequest (base k_cancelling env1) = Some (\<lambda>p h x. (h, x))"
    by (simp add: base_cancelling cancelling_transport_def)
  have e: "entries (in_flight k_cancelling) = [Some 0 \<mapsto> Some 4]"
    by (simp add: in_flight_cancelling entries_def)
  from CancelRequest_guarded[of k_cancelling env1 "Some 0" "in_flight k_cancelling"] c
  have "entries (CancelRequest k_cancelling env1 (Some 0) (in_flight k_cancelling))
          = (entries (in_flight k_cancelling))(Some 0 := None)"
    and "hist (CancelRequest k_cancelling env1 (Some 0) (in_flight k_cancelling))
           = hist (in_flight k_cancelling) @ [MapLoad (Some 0), MapDelete (Some 0),
               CallCancelRequest (case entries (in_flight k_cancelling) (Some 0) of None \<Rightarrow> None | Some m \<Rightarrow> m)]"
    by blast+
  then show ?thesis using e by (simp add: base_cancelling)
qed

text \<open>
  The claim as it is written says that the entry is removed for every request. With a
  transport that cannot cancel, the entry of a request in flight is still there after
  \<open>CancelRequest\<close>.
\<close>

theorem CancelRequest_without_canceler_counterexample:
  "rt_CancelRequest (base k_plain env1) = None
   \<and> entries (in_flight k_plain) (Some 0) = Some (Some 4)
   \<and> entries (CancelRequest k_plain env1 (Some 0) (in_flight k_plain)) (Some 0) = Some (Some 4)"
  by (simp add: CancelRequest_def base_plain plain_transport_def in_flight_plain entries_def)

end
